theory Spec2Isabelle
  imports Main "HOL-Library.AList"
begin

section \<open>Data model\<close>

text \<open>
  Fixture names are property keys of the registry object: strings.  Resource values are
  opaque (\<open>'v\<close>).  Fixture setup and cleanup operations are supplied by the test author
  and may have any effect; the part of the world they act on is the type parameter
  \<open>'w\<close>, threaded through every invocation in the order of the awaits.  A value thrown
  by such an operation has type \<open>'e\<close>.  The errors raised by the statements of the
  library itself are the type \<open>error\<close>: the three it creates with \<^verbatim>\<open>new Error(...)\<close>, and
  the two \<^verbatim>\<open>TypeError\<close>s of the runtime when a value that is not a fixture is used as
  one (\<^verbatim>\<open>[...fixture.dependencies]\<close> on a value without iterable dependencies,
  \<^verbatim>\<open>fixture.setup(values)\<close> on a value without a setup function).  What a caller of the
  library can catch is either an error of the library or a value of the user.
\<close>

datatype 'k error =
    FixtureNotFound 'k
  | CircularDependency 'k
  | NotInitialized
  | NotIterable
  | NotAFunction

datatype ('k, 'e) thrown =
    Error "'k error"
  | Rejected 'e

text \<open>
  A cleanup is a zero-argument function typed \<^verbatim>\<open>() => Promise<void>\<close>.  Called in world
  \<open>w\<close> it leaves a new world and ends in one of three ways: the promise it returns
  resolves; the promise it returns rejects with an error; or the call itself throws an
  error and returns no promise, which a function of that type that is not \<^verbatim>\<open>async\<close> does
  when its body raises.
\<close>

datatype 'e outcome =
    Resolves
  | Rejects 'e
  | Throws 'e

type_synonym ('w, 'e) cleanup = "'w \<Rightarrow> 'e outcome \<times> 'w"

record ('v, 'w, 'e) FixtureResult =
  fvalue :: 'v
  cleanup :: "('w, 'e) cleanup"

text \<open>
  \<^verbatim>\<open>AnyFixture\<close>: the declared dependency names and the setup operation.  The operation
  is handed the \<^verbatim>\<open>values\<close> object itself, not a copy, and its parameter is writable: it
  takes the record as it stands and returns, with its outcome, the record as it leaves
  it.  The outcome is an error (the call is awaited inside the \<^verbatim>\<open>try\<close> block, which
  catches a throw and a rejection alike) or a \<^verbatim>\<open>FixtureResult\<close>.
\<close>

record ('v, 'w, 'e) fixture =
  dependencies :: "string list"
  setup_op :: "(string \<rightharpoonup> 'v) \<Rightarrow> 'w
                 \<Rightarrow> ('e + ('v, 'w, 'e) FixtureResult) \<times> (string \<rightharpoonup> 'v) \<times> 'w"

text \<open>
  The registry is a JavaScript object, written as an object literal wherever the
  repository shows one.  Its own keys, each with one fixture, are an association list
  read with \<^const>\<open>map_of\<close>.  Such an object also inherits the members of
  \<^verbatim>\<open>Object.prototype\<close>, listed below by name (ECMAScript, properties of the Object
  prototype object, with the accessor \<^verbatim>\<open>__proto__\<close> and the four legacy methods); none of
  them is a fixture.
\<close>

type_synonym ('v, 'w, 'e) FixtureRegistry = "(string \<times> ('v, 'w, 'e) fixture) list"

definition object_prototype_keys :: "string list" where
  "object_prototype_keys =
     [''constructor'', ''hasOwnProperty'', ''isPrototypeOf'', ''propertyIsEnumerable'',
      ''toLocaleString'', ''toString'', ''valueOf'', ''__proto__'',
      ''__defineGetter__'', ''__defineSetter__'', ''__lookupGetter__'', ''__lookupSetter__'']"

text \<open>
  The \<^verbatim>\<open>state\<close> object that \<^verbatim>\<open>createFixtures\<close> closes over; \<open>None\<close> is \<^verbatim>\<open>null\<close>.  A
  record of values is the map of its own properties.  \<^verbatim>\<open>state.deps\<close> is the object that
  the setup operations were handed; the state holds it as they and the loop left it when
  \<^verbatim>\<open>setup\<close> returned.
\<close>

record ('v, 'w, 'e) state =
  deps :: "(string \<rightharpoonup> 'v) option"
  cleanups :: "('w, 'e) cleanup list"

text \<open>
  The invocations of user-supplied operations made by one call of the library, in order,
  each with what it was given and how it ended.  The log is what the claims about
  invocation order and invocation counts are stated on.
\<close>

datatype ('v, 'w, 'e) event =
    SetupCalled string "string \<rightharpoonup> 'v" "'e + ('v, 'w, 'e) FixtureResult"
  | CleanupCalled "('w, 'e) cleanup" "'e outcome"

section \<open>Topological sorter\<close>

text \<open>
  \<^verbatim>\<open>sortFixtures\<close>.  The local variables \<^verbatim>\<open>sorted\<close>, \<^verbatim>\<open>visited\<close> and \<^verbatim>\<open>visiting\<close> are the
  triple passed along; the \<^verbatim>\<open>Map\<close> of dependencies is an association list.  \<open>visit_each\<close>
  is the \<^verbatim>\<open>for (const dep of deps) visit(dep)\<close> loop, which is also the loop over the
  requested fixtures in the body of \<^verbatim>\<open>sortFixtures\<close>.  A \<^verbatim>\<open>throw\<close> leaves through \<open>Inl\<close>.
\<close>

type_synonym 'k sort_state = "'k list \<times> 'k set \<times> 'k set"

function visit :: "('k \<times> 'k list) list \<Rightarrow> 'k \<Rightarrow> 'k sort_state \<Rightarrow> 'k error + 'k sort_state"
  and visit_each :: "('k \<times> 'k list) list \<Rightarrow> 'k list \<Rightarrow> 'k sort_state \<Rightarrow> 'k error + 'k sort_state"
where
  "visit depmap name (sorted_acc, visited, visiting) =
     (if name \<in> visited then Inr (sorted_acc, visited, visiting)
      else if name \<in> visiting then Inl (CircularDependency name)
      else
        (case (case map_of depmap name of
                 None \<Rightarrow> Inr (sorted_acc, visited, insert name visiting)
               | Some ds \<Rightarrow> visit_each depmap ds (sorted_acc, visited, insert name visiting)) of
           Inl err \<Rightarrow> Inl err
         | Inr (sorted_acc', visited', visiting') \<Rightarrow>
             Inr (sorted_acc' @ [name], insert name visited', visiting' - {name})))"
| "visit_each depmap [] st = Inr st"
| "visit_each depmap (dep # ds) st =
     (case visit depmap dep st of
        Inl err \<Rightarrow> Inl err
      | Inr st' \<Rightarrow> visit_each depmap ds st')"
  by pat_completeness auto

lemma visit_keeps_visiting:
  "visit_visit_each_dom (Inl (depmap, name, st)) \<Longrightarrow>
     visit depmap name st = Inr st' \<Longrightarrow> snd (snd st') = snd (snd st)"
  "visit_visit_each_dom (Inr (depmap, ds, st)) \<Longrightarrow>
     visit_each depmap ds st = Inr st' \<Longrightarrow> snd (snd st') = snd (snd st)"
proof (induction depmap name st and depmap ds st arbitrary: st' and st'
       rule: visit_visit_each.pinduct)
  case (1 depmap name sorted_acc visited visiting)
  show ?case
  proof (cases "name \<in> visited \<or> name \<in> visiting")
    case True
    then show ?thesis using 1(1,3) by (auto simp: visit.psimps split: if_splits)
  next
    case False
    show ?thesis
    proof (cases "map_of depmap name")
      case None
      then show ?thesis using False 1(1,3) by (auto simp: visit.psimps)
    next
      case (Some ds)
      from Some False 1(1,3) obtain s' vd' vg' where
        inner: "visit_each depmap ds (sorted_acc, visited, insert name visiting) = Inr (s', vd', vg')"
        and st': "st' = (s' @ [name], insert name vd', vg' - {name})"
        by (auto simp: visit.psimps split: sum.splits)
      from 1(2)[OF _ _ Some inner] False have "vg' = insert name visiting" by simp
      then show ?thesis using st' False by auto
    qed
  qed
next
  case (2 depmap st)
  then show ?case by (simp add: visit_each.psimps)
next
  case (3 depmap dep ds st)
  then show ?case
    by (auto simp: visit_each.psimps split: sum.splits)
qed

lemma card_keys_less:
  assumes "map_of m k = Some v" and "k \<notin> S"
  shows "card (fst ` set m - insert k S) < card (fst ` set m - S)"
proof (rule psubset_card_mono)
  show "finite (fst ` set m - S)" by simp
  have "k \<in> fst ` set m"
    using assms(1) by (metis domI dom_map_of_conv_image_fst)
  then show "fst ` set m - insert k S \<subset> fst ` set m - S"
    using assms(2) by auto
qed

termination visit
  apply (relation "inv_image (less_than <*lex*> less_than)
    (\<lambda>x. case x of
       Inl (depmap, name, (s, vd, vg)) \<Rightarrow> (card (fst ` set depmap - vg), 0)
     | Inr (depmap, ds, (s, vd, vg)) \<Rightarrow> (card (fst ` set depmap - vg), Suc (length ds)))")
  subgoal by auto
  subgoal for depmap name sorted_acc visited visiting ds
    by (simp add: card_keys_less)
  subgoal for depmap dep ds st
    by (cases st) auto
  subgoal for depmap dep ds st st'
    using visit_keeps_visiting(1)[of depmap dep st st']
    by (cases st; cases st') auto
  done

definition sortFixtures :: "'k list \<Rightarrow> ('k \<times> 'k list) list \<Rightarrow> 'k error + 'k list" where
  "sortFixtures fixtures depmap =
     (case visit_each depmap fixtures ([], {}, {}) of
        Inl err \<Rightarrow> Inl err
      | Inr (sorted_acc, visited, visiting) \<Rightarrow> Inr sorted_acc)"

section \<open>Dependency graph builder\<close>

text \<open>
  \<^verbatim>\<open>getFixture\<close>.  \<^verbatim>\<open>registry[name]\<close> is the fixture under the own key \<open>name\<close> when the
  registry has that key; otherwise it is the member of \<^verbatim>\<open>Object.prototype\<close> of that name
  when there is one, a function or an object, which passes the test \<^verbatim>\<open>!fixture\<close> and is
  returned as if it were a fixture; otherwise it is \<^verbatim>\<open>undefined\<close> and the error is thrown.
\<close>

datatype ('v, 'w, 'e) found =
    Own "('v, 'w, 'e) fixture"
  | Inherited

definition getFixture ::
  "('v, 'w, 'e) FixtureRegistry \<Rightarrow> string \<Rightarrow> string error + ('v, 'w, 'e) found" where
  "getFixture registry name =
     (case map_of registry name of
        Some fixture \<Rightarrow> Inr (Own fixture)
      | None \<Rightarrow>
          if name \<in> set object_prototype_keys then Inr Inherited
          else Inl (FixtureNotFound name))"

text \<open>
  \<^verbatim>\<open>toLoad\<close> is a \<^verbatim>\<open>Set\<close>, read back with \<^verbatim>\<open>Array.from\<close>: it keeps each element once, in
  the order of first insertion.
\<close>

definition set_add :: "'k \<Rightarrow> 'k list \<Rightarrow> 'k list" where
  "set_add x xs = (if x \<in> set xs then xs else xs @ [x])"

definition new_Set :: "'k list \<Rightarrow> 'k list" where
  "new_Set xs = fold set_add xs []"

text \<open>
  \<^verbatim>\<open>loadDeps\<close>, the local function of \<^verbatim>\<open>setup\<close>, on the two collections it updates:
  the \<^verbatim>\<open>dependencies\<close> map and \<^verbatim>\<open>toLoad\<close>.  \<open>loadDeps_each\<close> is its \<^verbatim>\<open>d.forEach\<close>.
  An inherited member has no property \<^verbatim>\<open>dependencies\<close>, and spreading \<^verbatim>\<open>undefined\<close>
  throws the \<^verbatim>\<open>TypeError\<close>.
\<close>

type_synonym 'k graph_state = "('k \<times> 'k list) list \<times> 'k list"

function loadDeps ::
    "('v, 'w, 'e) FixtureRegistry \<Rightarrow> string \<Rightarrow> string graph_state
       \<Rightarrow> string error + string graph_state"
  and loadDeps_each ::
    "('v, 'w, 'e) FixtureRegistry \<Rightarrow> string list \<Rightarrow> string graph_state
       \<Rightarrow> string error + string graph_state"
where
  "loadDeps registry n (depmap, toLoad) =
     (if map_of depmap n \<noteq> None then Inr (depmap, toLoad)
      else
        (case getFixture registry n of
           Inl err \<Rightarrow> Inl err
         | Inr Inherited \<Rightarrow> Inl NotIterable
         | Inr (Own fixture) \<Rightarrow>
             loadDeps_each registry (dependencies fixture)
               (AList.update n (dependencies fixture) depmap, toLoad)))"
| "loadDeps_each registry [] st = Inr st"
| "loadDeps_each registry (dep # d) (depmap, toLoad) =
     (case loadDeps registry dep (depmap, set_add dep toLoad) of
        Inl err \<Rightarrow> Inl err
      | Inr st' \<Rightarrow> loadDeps_each registry d st')"
  by pat_completeness auto

lemma getFixture_Own:
  "getFixture registry n = Inr (Own fixture) \<longleftrightarrow> map_of registry n = Some fixture"
  by (auto simp: getFixture_def split: option.splits)

lemma loadDeps_keeps_keys:
  "loadDeps_loadDeps_each_dom (Inl (registry, n, st)) \<Longrightarrow>
     loadDeps registry n st = Inr st' \<Longrightarrow> fst ` set (fst st) \<subseteq> fst ` set (fst st')"
  "loadDeps_loadDeps_each_dom (Inr (registry, d, st)) \<Longrightarrow>
     loadDeps_each registry d st = Inr st' \<Longrightarrow> fst ` set (fst st) \<subseteq> fst ` set (fst st')"
proof (induction registry n st and registry d st arbitrary: st' and st'
       rule: loadDeps_loadDeps_each.pinduct)
  case (1 registry n depmap toLoad)
  show ?case
  proof (cases "map_of depmap n \<noteq> None")
    case True
    then show ?thesis using 1(1,3) by (auto simp: loadDeps.psimps)
  next
    case False
    then obtain fixture where fx: "getFixture registry n = Inr (Own fixture)"
      and inner: "loadDeps_each registry (dependencies fixture)
                    (AList.update n (dependencies fixture) depmap, toLoad) = Inr st'"
      using 1(1,3) by (auto simp: loadDeps.psimps split: sum.splits found.splits)
    from 1(2)[OF _ fx refl inner] False
    have "fst ` set (AList.update n (dependencies fixture) depmap) \<subseteq> fst ` set (fst st')"
      by simp
    then show ?thesis by (auto simp: dom_update)
  qed
next
  case (2 registry st)
  then show ?case by (simp add: loadDeps_each.psimps)
next
  case (3 registry dep d depmap toLoad)
  from 3(1,4) obtain st1 where
    first: "loadDeps registry dep (depmap, set_add dep toLoad) = Inr st1"
    and rest: "loadDeps_each registry d st1 = Inr st'"
    by (auto simp: loadDeps_each.psimps split: sum.splits)
  from 3(2)[OF first] 3(3)[OF first rest] show ?case by auto
qed

lemma card_missing_less:
  assumes "map_of registry n = Some fixture" and "map_of depmap n = None"
  shows "card (fst ` set registry - fst ` set (AList.update n v depmap))
           < card (fst ` set registry - fst ` set depmap)"
proof (rule psubset_card_mono)
  show "finite (fst ` set registry - fst ` set depmap)" by simp
  have "n \<in> fst ` set registry"
    using assms(1) by (metis domI dom_map_of_conv_image_fst)
  moreover have "n \<notin> fst ` set depmap"
    using assms(2) by (metis domIff dom_map_of_conv_image_fst)
  ultimately show "fst ` set registry - fst ` set (AList.update n v depmap)
                     \<subset> fst ` set registry - fst ` set depmap"
    by (auto simp: dom_update)
qed

termination loadDeps
  apply (relation "inv_image (less_than <*lex*> less_than)
    (\<lambda>x. case x of
       Inl (registry, n, (depmap, toLoad)) \<Rightarrow>
         (card (fst ` set registry - fst ` set depmap), 0)
     | Inr (registry, d, (depmap, toLoad)) \<Rightarrow>
         (card (fst ` set registry - fst ` set depmap), Suc (length d)))")
  subgoal by auto
  subgoal for registry n depmap toLoad x fixture
    by (auto simp: getFixture_Own card_missing_less)
  subgoal for registry dep d depmap toLoad
    by auto
  subgoal for registry dep d depmap toLoad st'
  proof -
    assume run: "loadDeps registry dep (depmap, set_add dep toLoad) = Inr st'"
      and dom: "loadDeps_loadDeps_each_dom (Inl (registry, dep, depmap, set_add dep toLoad))"
    from loadDeps_keeps_keys(1)[OF dom run]
    have "fst ` set registry - fst ` set (fst st') \<subseteq> fst ` set registry - fst ` set depmap"
      by auto
    then have "card (fst ` set registry - fst ` set (fst st'))
                 \<le> card (fst ` set registry - fst ` set depmap)"
      by (intro card_mono) auto
    then show ?thesis by (cases st') auto
  qed
  done

text \<open>
  The first part of \<^verbatim>\<open>setup\<close>: \<^verbatim>\<open>toLoad\<close> starts as the set of the requested names and
  \<^verbatim>\<open>loadDeps\<close> is called on each requested name in turn.
\<close>

fun load_requested ::
  "('v, 'w, 'e) FixtureRegistry \<Rightarrow> string list \<Rightarrow> string graph_state
     \<Rightarrow> string error + string graph_state" where
  "load_requested registry [] st = Inr st"
| "load_requested registry (name # rest) st =
     (case loadDeps registry name st of
        Inl err \<Rightarrow> Inl err
      | Inr st' \<Rightarrow> load_requested registry rest st')"

definition build_graph ::
  "('v, 'w, 'e) FixtureRegistry \<Rightarrow> string list \<Rightarrow> string error + string graph_state" where
  "build_graph registry requested = load_requested registry requested ([], new_Set requested)"

section \<open>Lifecycle orchestrator\<close>

text \<open>
  \<^verbatim>\<open>defineFixture\<close> pairs the dependency list with the setup operation.
\<close>

definition defineFixture ::
  "string list
     \<Rightarrow> ((string \<rightharpoonup> 'v) \<Rightarrow> 'w \<Rightarrow> ('e + ('v, 'w, 'e) FixtureResult) \<times> (string \<rightharpoonup> 'v) \<times> 'w)
     \<Rightarrow> ('v, 'w, 'e) fixture" where
  "defineFixture ds f = \<lparr>dependencies = ds, setup_op = f\<rparr>"

text \<open>
  \<^verbatim>\<open>createFixtures(registry, requested)\<close> creates the state and returns the closures
  \<^verbatim>\<open>setup\<close>, \<^verbatim>\<open>teardown\<close> and \<^verbatim>\<open>get\<close> over it.  The closures are the functions
  \<open>fixtures_setup\<close>, \<open>fixtures_teardown\<close> and \<open>fixtures_get\<close> below, which take what they
  close over as arguments; \<open>createFixtures\<close> is the state a new instance starts with.
\<close>

definition createFixtures :: "('v, 'w, 'e) state" where
  "createFixtures = \<lparr>deps = None, cleanups = []\<rparr>"

text \<open>
  \<^verbatim>\<open>values[name] = result.value\<close>, on the record that \<^verbatim>\<open>setup\<close> creates with \<^verbatim>\<open>{}\<close>.
  Under every name but one the assignment creates or replaces the own property of that
  name.  Under the name \<^verbatim>\<open>__proto__\<close> it goes to the accessor that the record inherits
  from \<^verbatim>\<open>Object.prototype\<close>, and no own property is created.  (When the value assigned is
  an object, that accessor also makes it the prototype of the record.  A record is here
  the map of its own properties, which does not show this; the statements about what a
  record holds are made for registries without a fixture of that name.)
\<close>

definition assign :: "string \<Rightarrow> 'v \<Rightarrow> (string \<rightharpoonup> 'v) \<Rightarrow> (string \<rightharpoonup> 'v)" where
  "assign name v vals = (if name = ''__proto__'' then vals else vals(name \<mapsto> v))"

text \<open>
  The body of the \<^verbatim>\<open>try\<close> block of \<^verbatim>\<open>setup\<close>: the loop over the sorted names.  It
  returns what was thrown, if anything, with the \<^verbatim>\<open>values\<close> record, the state, the world
  and the invocations made.  Each setup operation is given the record as the operations
  and assignments before it have left it.  An inherited member of the registry has no
  \<^verbatim>\<open>setup\<close> function, and calling it throws the \<^verbatim>\<open>TypeError\<close>.
\<close>

fun setup_loop ::
  "('v, 'w, 'e) FixtureRegistry \<Rightarrow> string list \<Rightarrow> (string \<rightharpoonup> 'v) \<Rightarrow> ('v, 'w, 'e) state \<Rightarrow> 'w
     \<Rightarrow> (string, 'e) thrown option \<times> (string \<rightharpoonup> 'v) \<times> ('v, 'w, 'e) state \<times> 'w
         \<times> ('v, 'w, 'e) event list" where
  "setup_loop registry [] vals st w = (None, vals, st, w, [])"
| "setup_loop registry (name # rest) vals st w =
     (case getFixture registry name of
        Inl err \<Rightarrow> (Some (Error err), vals, st, w, [])
      | Inr Inherited \<Rightarrow> (Some (Error NotAFunction), vals, st, w, [])
      | Inr (Own fixture) \<Rightarrow>
          (case setup_op fixture vals w of
             (Inl e, vals', w') \<Rightarrow>
               (Some (Rejected e), vals', st, w', [SetupCalled name vals (Inl e)])
           | (Inr result, vals', w') \<Rightarrow>
               (case setup_loop registry rest (assign name (fvalue result) vals')
                       (st\<lparr>cleanups := cleanups st @ [cleanup result]\<rparr>) w' of
                  (thrown, vals'', st', w'', evs) \<Rightarrow>
                    (thrown, vals'', st', w'', SetupCalled name vals (Inr result) # evs))))"

text \<open>
  \<^verbatim>\<open>for (const cleanup of ...) await cleanup().catch(() => {})\<close>: the loop of the
  \<^verbatim>\<open>catch\<close> block of \<^verbatim>\<open>setup\<close> and, with the same body, the loop of \<^verbatim>\<open>teardown\<close>.  The
  handler is attached to the promise that the call returns: a rejection is caught and
  dropped and the loop goes on.  An error thrown by the call itself is not caught: it
  ends the loop, the cleanups after it are not called, and it is what the loop returns.
  The log keeps every outcome.
\<close>

fun run_cleanups ::
  "('w, 'e) cleanup list \<Rightarrow> 'w \<Rightarrow> 'e option \<times> 'w \<times> ('v, 'w, 'e) event list" where
  "run_cleanups [] w = (None, w, [])"
| "run_cleanups (c # cs) w =
     (case c w of
        (Throws e, w') \<Rightarrow> (Some e, w', [CleanupCalled c (Throws e)])
      | (outcome, w') \<Rightarrow>
          (case run_cleanups cs w' of
             (escaped, w'', evs) \<Rightarrow> (escaped, w'', CleanupCalled c outcome # evs)))"

text \<open>
  \<^verbatim>\<open>setup\<close>.  The graph is built and sorted before the \<^verbatim>\<open>try\<close> block: an error of either
  leaves the state as it was.  Then \<^verbatim>\<open>state.cleanups\<close> is emptied and the loop runs.  When
  it ends well, \<^verbatim>\<open>state.deps\<close> becomes the \<^verbatim>\<open>values\<close> record.  Otherwise the \<^verbatim>\<open>catch\<close> block
  runs the cleanups pushed so far, last first, over a reversed copy of the list; then it
  clears the state and throws the error again.  When a cleanup throws, the \<^verbatim>\<open>catch\<close> block
  is left at once with that error: the two assignments that clear the state are not
  reached.
\<close>

definition fixtures_setup ::
  "('v, 'w, 'e) FixtureRegistry \<Rightarrow> string list \<Rightarrow> ('v, 'w, 'e) state \<Rightarrow> 'w
     \<Rightarrow> (string, 'e) thrown option \<times> ('v, 'w, 'e) state \<times> 'w \<times> ('v, 'w, 'e) event list" where
  "fixtures_setup registry requested st w =
     (case build_graph registry requested of
        Inl err \<Rightarrow> (Some (Error err), st, w, [])
      | Inr (depmap, toLoad) \<Rightarrow>
          (case sortFixtures toLoad depmap of
             Inl err \<Rightarrow> (Some (Error err), st, w, [])
           | Inr sorted_names \<Rightarrow>
               (case setup_loop registry sorted_names Map.empty (st\<lparr>cleanups := []\<rparr>) w of
                  (None, vals, st', w', evs) \<Rightarrow> (None, st'\<lparr>deps := Some vals\<rparr>, w', evs)
                | (Some err, vals, st', w', evs) \<Rightarrow>
                    (case run_cleanups (rev (cleanups st')) w' of
                       (None, w'', evs') \<Rightarrow>
                         (Some err, st'\<lparr>cleanups := [], deps := None\<rparr>, w'', evs @ evs')
                     | (Some e, w'', evs') \<Rightarrow>
                         (Some (Rejected e), st', w'', evs @ evs')))))"

text \<open>
  \<^verbatim>\<open>teardown\<close>.  \<^verbatim>\<open>state.cleanups.reverse()\<close> reverses the list in place and the loop runs
  over it; then the state is cleared.  When a cleanup throws, \<^verbatim>\<open>teardown\<close> is left at once
  with that error: the list stays as reversed and \<^verbatim>\<open>state.deps\<close> as it was.
\<close>

definition fixtures_teardown ::
  "('v, 'w, 'e) state \<Rightarrow> 'w
     \<Rightarrow> (string, 'e) thrown option \<times> ('v, 'w, 'e) state \<times> 'w \<times> ('v, 'w, 'e) event list" where
  "fixtures_teardown st w =
     (case run_cleanups (rev (cleanups st)) w of
        (None, w', evs) \<Rightarrow> (None, st\<lparr>deps := None, cleanups := []\<rparr>, w', evs)
      | (Some e, w', evs) \<Rightarrow> (Some (Rejected e), st\<lparr>cleanups := rev (cleanups st)\<rparr>, w', evs))"

text \<open>
  \<^verbatim>\<open>get\<close>.  \<^verbatim>\<open>Object.fromEntries\<close> lets a later entry for a key replace an earlier one.
  \<^verbatim>\<open>state.deps[name]\<close> is the own property of that name when the record has one;
  \<open>None\<close> stands for what the lookup gives when it has none: \<^verbatim>\<open>undefined\<close> or, under a name
  of \<^verbatim>\<open>Object.prototype\<close>, the inherited member.  \<^verbatim>\<open>get\<close> writes nothing, so it returns no
  state.
\<close>

definition fromEntries :: "('k \<times> 'x) list \<Rightarrow> ('k \<rightharpoonup> 'x)" where
  "fromEntries entries = map_of (rev entries)"

definition fixtures_get ::
  "string list \<Rightarrow> ('v, 'w, 'e) state \<Rightarrow> string error + (string \<rightharpoonup> 'v option)" where
  "fixtures_get requested st =
     (case deps st of
        None \<Rightarrow> Inl NotInitialized
      | Some d \<Rightarrow> Inr (fromEntries (map (\<lambda>name. (name, d name)) requested)))"

section \<open>Vocabulary of the properties\<close>

text \<open>
  The notions the properties are stated with: the declared dependency edges of a
  registry, and the transitive closure of the requested names under them.
\<close>

definition dep_edges :: "('v, 'w, 'e) FixtureRegistry \<Rightarrow> (string \<times> string) set" where
  "dep_edges registry =
     {(n, d). \<exists>fixture. map_of registry n = Some fixture \<and> d \<in> set (dependencies fixture)}"

definition closure :: "('v, 'w, 'e) FixtureRegistry \<Rightarrow> string list \<Rightarrow> string set" where
  "closure registry requested = (dep_edges registry)\<^sup>* `` set requested"

text \<open>
  The two conditions on a registry and a list of requested names: every name of the
  closure has a fixture of its own in the registry, and no name of the closure depends
  on itself.
\<close>

definition no_missing :: "('v, 'w, 'e) FixtureRegistry \<Rightarrow> string list \<Rightarrow> bool" where
  "no_missing registry requested \<longleftrightarrow>
     (\<forall>n \<in> closure registry requested. map_of registry n \<noteq> None)"

definition no_cycles :: "('v, 'w, 'e) FixtureRegistry \<Rightarrow> string list \<Rightarrow> bool" where
  "no_cycles registry requested \<longleftrightarrow>
     (\<forall>n \<in> closure registry requested. (n, n) \<notin> (dep_edges registry)\<^sup>+)"

text \<open>
  No name of the closure is found by \<^verbatim>\<open>registry[name]\<close> through the prototype only: a
  name of the closure without a fixture of its own is not the name of a member of
  \<^verbatim>\<open>Object.prototype\<close>.
\<close>

definition none_inherited :: "('v, 'w, 'e) FixtureRegistry \<Rightarrow> string list \<Rightarrow> bool" where
  "none_inherited registry requested \<longleftrightarrow>
     (\<forall>k \<in> closure registry requested.
        map_of registry k = None \<longrightarrow> k \<notin> set object_prototype_keys)"

text \<open>
  The setup operations of a registry leave the record they are given as it is.
\<close>

definition record_kept :: "('v, 'w, 'e) FixtureRegistry \<Rightarrow> bool" where
  "record_kept registry \<longleftrightarrow>
     (\<forall>name fixture vals w. map_of registry name = Some fixture \<longrightarrow>
        fst (snd (setup_op fixture vals w)) = vals)"

text \<open>
  A fixture that two different fixtures of the closure declare as a dependency.
\<close>

definition shared_dependency :: "('v, 'w, 'e) FixtureRegistry \<Rightarrow> string list \<Rightarrow> string \<Rightarrow> bool" where
  "shared_dependency registry requested n \<longleftrightarrow>
     (\<exists>a b. a \<noteq> b \<and> a \<in> closure registry requested \<and> b \<in> closure registry requested \<and>
            (a, n) \<in> dep_edges registry \<and> (b, n) \<in> dep_edges registry)"

text \<open>
  The value of the variable \<^verbatim>\<open>sorted\<close> of \<^verbatim>\<open>setup\<close>: the graph is built, then sorted.
\<close>

definition sorted_order :: "('v, 'w, 'e) FixtureRegistry \<Rightarrow> string list \<Rightarrow> string error + string list" where
  "sorted_order registry requested =
     (case build_graph registry requested of
        Inl err \<Rightarrow> Inl err
      | Inr (depmap, toLoad) \<Rightarrow> sortFixtures toLoad depmap)"

text \<open>\<open>precedes xs d n\<close>: \<open>d\<close> occurs in \<open>xs\<close> at an earlier position than \<open>n\<close>.\<close>

definition precedes :: "'k list \<Rightarrow> 'k \<Rightarrow> 'k \<Rightarrow> bool" where
  "precedes xs d n \<longleftrightarrow> (\<exists>i j. j < i \<and> i < length xs \<and> xs ! i = n \<and> xs ! j = d)"

text \<open>The names of the fixtures whose setup operation a log shows invoked, in order.\<close>

fun setup_names :: "('v, 'w, 'e) event list \<Rightarrow> string list" where
  "setup_names [] = []"
| "setup_names (SetupCalled name vals outcome # evs) = name # setup_names evs"
| "setup_names (CleanupCalled c outcome # evs) = setup_names evs"

text \<open>An invocation of a cleanup that threw.\<close>

definition threw :: "('v, 'w, 'e) event \<Rightarrow> bool" where
  "threw ev \<longleftrightarrow> (\<exists>c e. ev = CleanupCalled c (Throws e))"

section \<open>Notions of the proofs\<close>

text \<open>
  \<open>grown registry R st st'\<close>: what a run of \<^verbatim>\<open>loadDeps\<close> does to the two collections.
  Entries of the map are kept; \<^verbatim>\<open>toLoad\<close> only gains names of \<open>R\<close>; every new key of the
  map is in \<open>R\<close>, is mapped to the dependency list its fixture declares, and each of
  those dependencies is in \<^verbatim>\<open>toLoad\<close> and has an entry of its own.
\<close>

definition grown ::
  "('v, 'w, 'e) FixtureRegistry \<Rightarrow> string set \<Rightarrow> string graph_state \<Rightarrow> string graph_state
     \<Rightarrow> bool" where
  "grown registry R st st' \<longleftrightarrow>
     (\<forall>k v. map_of (fst st) k = Some v \<longrightarrow> map_of (fst st') k = Some v) \<and>
     set (snd st) \<subseteq> set (snd st') \<and>
     set (snd st') \<subseteq> set (snd st) \<union> R \<and>
     (distinct (snd st) \<longrightarrow> distinct (snd st')) \<and>
     (\<forall>k. map_of (fst st) k = None \<longrightarrow> map_of (fst st') k \<noteq> None \<longrightarrow>
        k \<in> R \<and>
        (\<exists>fixture. map_of registry k = Some fixture \<and>
           map_of (fst st') k = Some (dependencies fixture) \<and>
           set (dependencies fixture) \<subseteq> set (snd st') \<and>
           (\<forall>d \<in> set (dependencies fixture). map_of (fst st') d \<noteq> None)))"

text \<open>
  The edges of the \<^verbatim>\<open>dependencies\<close> map handed to the sorter, and the property of a
  list that every element comes after all the elements it has an edge to.
\<close>

definition graph_edges :: "('k \<times> 'k list) list \<Rightarrow> ('k \<times> 'k) set" where
  "graph_edges depmap = {(n, d). \<exists>ds. map_of depmap n = Some ds \<and> d \<in> set ds}"

definition deps_before :: "('k \<times> 'k) set \<Rightarrow> 'k list \<Rightarrow> bool" where
  "deps_before E xs \<longleftrightarrow> (\<forall>i < length xs. \<forall>d. (xs ! i, d) \<in> E \<longrightarrow> d \<in> set (take i xs))"

text \<open>
  The invariant of the sorter between visits: \<^verbatim>\<open>sorted\<close> lists exactly the visited
  names, each once and after its dependencies, and no visited name is in progress.
\<close>

definition sort_inv :: "('k \<times> 'k) set \<Rightarrow> 'k sort_state \<Rightarrow> bool" where
  "sort_inv E st \<longleftrightarrow>
     (case st of (s, vd, vg) \<Rightarrow> set s = vd \<and> distinct s \<and> vd \<inter> vg = {} \<and> deps_before E s)"

text \<open>
  The error that building the graph raises at a name without a fixture of its own.
\<close>

definition build_error :: "string \<Rightarrow> string error" where
  "build_error k = (if k \<in> set object_prototype_keys then NotIterable else FixtureNotFound k)"

section \<open>Scenarios of the test suite\<close>

text \<open>
  The fixtures of \<^verbatim>\<open>fixtures.test.ts\<close>.  The world is the record of calls that the tests
  keep in arrays and mocks: every setup and every cleanup appends its name to it.  Values
  and thrown errors are strings.  A logged cleanup resolves, a failing cleanup returns a
  promise that rejects, and a throwing cleanup raises in its body and returns nothing,
  like \<^verbatim>\<open>() => { calls.push("cleanup b"); throw new Error("cleanup threw"); }\<close>.
\<close>

type_synonym call_log = "string list"

definition logged_cleanup :: "string \<Rightarrow> (call_log, string) cleanup" where
  "logged_cleanup name w = (Resolves, w @ [''cleanup '' @ name])"

definition failing_cleanup :: "string \<Rightarrow> string \<Rightarrow> (call_log, string) cleanup" where
  "failing_cleanup name message w = (Rejects message, w @ [''cleanup '' @ name])"

definition throwing_cleanup :: "string \<Rightarrow> string \<Rightarrow> (call_log, string) cleanup" where
  "throwing_cleanup name message w = (Throws message, w @ [''cleanup '' @ name])"

text \<open>
  The setup operations: one that resolves to its own name as value, one that rejects, and
  one that resolves after writing the record it was given, like
  \<^verbatim>\<open>async (deps) => { deps.a = "overwritten"; return { value: "b", cleanup }; }\<close>.
\<close>

definition resolving_setup ::
  "string \<Rightarrow> (call_log, string) cleanup \<Rightarrow> (string \<rightharpoonup> string) \<Rightarrow> call_log
     \<Rightarrow> (string + (string, call_log, string) FixtureResult) \<times> (string \<rightharpoonup> string) \<times> call_log" where
  "resolving_setup name c vals w =
     (Inr \<lparr>fvalue = name, cleanup = c\<rparr>, vals, w @ [''setup '' @ name])"

definition rejecting_setup ::
  "string \<Rightarrow> string \<Rightarrow> (string \<rightharpoonup> string) \<Rightarrow> call_log
     \<Rightarrow> (string + (string, call_log, string) FixtureResult) \<times> (string \<rightharpoonup> string) \<times> call_log" where
  "rejecting_setup name message vals w = (Inl message, vals, w @ [''setup '' @ name])"

definition overwriting_setup ::
  "string \<Rightarrow> (call_log, string) cleanup \<Rightarrow> string \<Rightarrow> (string \<rightharpoonup> string) \<Rightarrow> call_log
     \<Rightarrow> (string + (string, call_log, string) FixtureResult) \<times> (string \<rightharpoonup> string) \<times> call_log" where
  "overwriting_setup name c key vals w =
     (Inr \<lparr>fvalue = name, cleanup = c\<rparr>, vals(key \<mapsto> ''overwritten''),
      w @ [''setup '' @ name])"

text \<open>\<^verbatim>\<open>should throw if cleanup fails\<close>: the chain \<open>a\<close>, \<open>b\<close>, \<open>c\<close>; the cleanup of \<open>b\<close> rejects.\<close>

definition cleanup_fails_registry :: "(string, call_log, string) FixtureRegistry" where
  "cleanup_fails_registry =
     [(''a'', defineFixture [] (resolving_setup ''a'' (logged_cleanup ''a''))),
      (''b'', defineFixture [''a'']
         (resolving_setup ''b'' (failing_cleanup ''b'' ''cleanup failed''))),
      (''c'', defineFixture [''b''] (resolving_setup ''c'' (logged_cleanup ''c'')))]"

definition cleanup_fails_live :: "(string, call_log, string) state" where
  "cleanup_fails_live =
     \<lparr>deps = Some [''a'' \<mapsto> ''a'', ''b'' \<mapsto> ''b'', ''c'' \<mapsto> ''c''],
      cleanups = [logged_cleanup ''a'', failing_cleanup ''b'' ''cleanup failed'',
                  logged_cleanup ''c'']\<rparr>"

text \<open>
  The same chain where the cleanup of \<open>b\<close> throws instead: the registry, the state after
  a successful setup, and the same state with the cleanup list reversed.
\<close>

definition cleanup_throws_registry :: "(string, call_log, string) FixtureRegistry" where
  "cleanup_throws_registry =
     [(''a'', defineFixture [] (resolving_setup ''a'' (logged_cleanup ''a''))),
      (''b'', defineFixture [''a'']
         (resolving_setup ''b'' (throwing_cleanup ''b'' ''cleanup threw''))),
      (''c'', defineFixture [''b''] (resolving_setup ''c'' (logged_cleanup ''c'')))]"

definition cleanup_throws_live :: "(string, call_log, string) state" where
  "cleanup_throws_live =
     \<lparr>deps = Some [''a'' \<mapsto> ''a'', ''b'' \<mapsto> ''b'', ''c'' \<mapsto> ''c''],
      cleanups = [logged_cleanup ''a'', throwing_cleanup ''b'' ''cleanup threw'',
                  logged_cleanup ''c'']\<rparr>"

definition cleanup_throws_left :: "(string, call_log, string) state" where
  "cleanup_throws_left =
     \<lparr>deps = Some [''a'' \<mapsto> ''a'', ''b'' \<mapsto> ''b'', ''c'' \<mapsto> ''c''],
      cleanups = [logged_cleanup ''c'', throwing_cleanup ''b'' ''cleanup threw'',
                  logged_cleanup ''a'']\<rparr>"

text \<open>
  \<^verbatim>\<open>should cleanup already-created fixtures when setup fails\<close>: the setup of \<open>c\<close>
  rejects.  The cleanup of \<open>b\<close> is made to throw.
\<close>

definition rollback_throws_registry :: "(string, call_log, string) FixtureRegistry" where
  "rollback_throws_registry =
     [(''a'', defineFixture [] (resolving_setup ''a'' (logged_cleanup ''a''))),
      (''b'', defineFixture [''a'']
         (resolving_setup ''b'' (throwing_cleanup ''b'' ''cleanup threw''))),
      (''c'', defineFixture [''b''] (rejecting_setup ''c'' ''setup failed''))]"

text \<open>
  \<^verbatim>\<open>should handle shared dependencies\<close>: \<open>foo\<close> and \<open>bar\<close> both depend on \<open>shared\<close>.
\<close>

definition shared_registry :: "(string, call_log, string) FixtureRegistry" where
  "shared_registry =
     [(''shared'', defineFixture [] (resolving_setup ''shared'' (logged_cleanup ''shared''))),
      (''foo'', defineFixture [''shared''] (resolving_setup ''foo'' (logged_cleanup ''foo''))),
      (''bar'', defineFixture [''shared''] (resolving_setup ''bar'' (logged_cleanup ''bar'')))]"

text \<open>
  The same with one more fixture \<open>base\<close>, which \<open>shared\<close> depends on and whose setup
  rejects.
\<close>

definition failing_base_registry :: "(string, call_log, string) FixtureRegistry" where
  "failing_base_registry =
     [(''base'', defineFixture [] (rejecting_setup ''base'' ''setup failed'')),
      (''shared'', defineFixture [''base'']
         (resolving_setup ''shared'' (logged_cleanup ''shared''))),
      (''foo'', defineFixture [''shared''] (resolving_setup ''foo'' (logged_cleanup ''foo''))),
      (''bar'', defineFixture [''shared''] (resolving_setup ''bar'' (logged_cleanup ''bar'')))]"

text \<open>\<^verbatim>\<open>should throw on circular dependency\<close>: \<open>a\<close> depends on \<open>b\<close> and \<open>b\<close> on \<open>a\<close>.\<close>

definition cyclic_registry :: "(string, call_log, string) FixtureRegistry" where
  "cyclic_registry =
     [(''a'', defineFixture [''b''] (resolving_setup ''a'' (logged_cleanup ''a''))),
      (''b'', defineFixture [''a''] (resolving_setup ''b'' (logged_cleanup ''b'')))]"

text \<open>The same cycle, where \<open>a\<close> also declares a dependency \<open>zz\<close> that has no fixture.\<close>

definition cyclic_missing_registry :: "(string, call_log, string) FixtureRegistry" where
  "cyclic_missing_registry =
     [(''a'', defineFixture [''b'', ''zz''] (resolving_setup ''a'' (logged_cleanup ''a''))),
      (''b'', defineFixture [''a''] (resolving_setup ''b'' (logged_cleanup ''b'')))]"

text \<open>
  \<^verbatim>\<open>should throw if fixture not found\<close>: \<open>client\<close> depends on \<open>db\<close>, which has no
  fixture; and the same with a second dependency \<open>cache\<close> that has none either.
\<close>

definition missing_db_registry :: "(string, call_log, string) FixtureRegistry" where
  "missing_db_registry =
     [(''client'', defineFixture [''db'']
         (resolving_setup ''client'' (logged_cleanup ''client'')))]"

definition missing_two_registry :: "(string, call_log, string) FixtureRegistry" where
  "missing_two_registry =
     [(''client'', defineFixture [''db'', ''cache'']
         (resolving_setup ''client'' (logged_cleanup ''client'')))]"

text \<open>
  Two registries that are not in the test suite.  In the first a fixture has the own key
  \<^verbatim>\<open>__proto__\<close> and \<open>x\<close> depends on it.  In the second the setup of \<open>b\<close> overwrites the
  entry of \<open>a\<close> in the record it is given, and \<open>c\<close> depends on both.
\<close>

definition proto_registry :: "(string, call_log, string) FixtureRegistry" where
  "proto_registry =
     [(''__proto__'', defineFixture []
         (resolving_setup ''__proto__'' (logged_cleanup ''__proto__''))),
      (''x'', defineFixture [''__proto__''] (resolving_setup ''x'' (logged_cleanup ''x'')))]"

definition overwriting_registry :: "(string, call_log, string) FixtureRegistry" where
  "overwriting_registry =
     [(''a'', defineFixture [] (resolving_setup ''a'' (logged_cleanup ''a''))),
      (''b'', defineFixture [''a''] (overwriting_setup ''b'' (logged_cleanup ''b'') ''a'')),
      (''c'', defineFixture [''a'', ''b''] (resolving_setup ''c'' (logged_cleanup ''c'')))]"

text \<open>The definitions that evaluating a call of the library unfolds.\<close>

lemmas eval_defs = fixtures_setup_def sorted_order_def build_graph_def new_Set_def set_add_def
  getFixture_def object_prototype_keys_def defineFixture_def sortFixtures_def assign_def
  createFixtures_def fixtures_teardown_def fixtures_get_def fromEntries_def

section \<open>Correctness of the graph builder\<close>

lemma grown_keeps: "grown registry R st st' \<Longrightarrow> map_of (fst st) k = Some v \<Longrightarrow> map_of (fst st') k = Some v"
  by (simp add: grown_def)

lemma grown_toLoad_mono: "grown registry R st st' \<Longrightarrow> set (snd st) \<subseteq> set (snd st')"
  by (simp add: grown_def)

lemma grown_toLoad_bound: "grown registry R st st' \<Longrightarrow> set (snd st') \<subseteq> set (snd st) \<union> R"
  by (simp add: grown_def)

lemma grown_distinct: "grown registry R st st' \<Longrightarrow> distinct (snd st) \<Longrightarrow> distinct (snd st')"
  by (simp add: grown_def)

lemma grown_new:
  assumes "grown registry R st st'" and "map_of (fst st) k = None" and "map_of (fst st') k \<noteq> None"
  shows "k \<in> R"
    and "\<exists>fixture. map_of registry k = Some fixture \<and>
           map_of (fst st') k = Some (dependencies fixture) \<and>
           set (dependencies fixture) \<subseteq> set (snd st') \<and>
           (\<forall>d \<in> set (dependencies fixture). map_of (fst st') d \<noteq> None)"
  using assms unfolding grown_def by blast+

lemma grown_refl: "grown registry R st st"
  by (auto simp: grown_def)

lemma grown_trans:
  assumes "grown registry R1 st st1" and "grown registry R2 st1 st2"
    and "R1 \<subseteq> R" and "R2 \<subseteq> R"
  shows "grown registry R st st2"
  unfolding grown_def
proof (intro conjI allI impI)
  fix k v assume "map_of (fst st) k = Some v"
  then show "map_of (fst st2) k = Some v"
    using assms(1,2) by (simp add: grown_def)
next
  show "set (snd st) \<subseteq> set (snd st2)"
    using assms(1,2) unfolding grown_def by blast
next
  show "set (snd st2) \<subseteq> set (snd st) \<union> R"
    using assms unfolding grown_def by blast
next
  assume "distinct (snd st)"
  then show "distinct (snd st2)" using assms(1,2) by (simp add: grown_def)
next
  fix k assume new: "map_of (fst st) k = None" "map_of (fst st2) k \<noteq> None"
  show "k \<in> R"
  proof (cases "map_of (fst st1) k")
    case None
    then show ?thesis using new assms(2,4) unfolding grown_def by blast
  next
    case (Some a)
    then show ?thesis using new assms(1,3) unfolding grown_def by blast
  qed
  show "\<exists>fixture. map_of registry k = Some fixture \<and>
           map_of (fst st2) k = Some (dependencies fixture) \<and>
           set (dependencies fixture) \<subseteq> set (snd st2) \<and>
           (\<forall>d \<in> set (dependencies fixture). map_of (fst st2) d \<noteq> None)"
  proof (cases "map_of (fst st1) k")
    case None
    then show ?thesis using new assms(2) unfolding grown_def by blast
  next
    case (Some a)
    with new assms(1) obtain fixture where f: "map_of registry k = Some fixture"
      "map_of (fst st1) k = Some (dependencies fixture)"
      "set (dependencies fixture) \<subseteq> set (snd st1)"
      "\<forall>d \<in> set (dependencies fixture). map_of (fst st1) d \<noteq> None"
      unfolding grown_def by blast
    have "map_of (fst st2) k = Some (dependencies fixture)"
      using f(2) assms(2) by (simp add: grown_def)
    moreover have "set (dependencies fixture) \<subseteq> set (snd st2)"
      using f(3) assms(2) unfolding grown_def by blast
    moreover have "\<forall>d \<in> set (dependencies fixture). map_of (fst st2) d \<noteq> None"
    proof
      fix d assume "d \<in> set (dependencies fixture)"
      with f(4) obtain v where "map_of (fst st1) d = Some v" by auto
      then show "map_of (fst st2) d \<noteq> None" using assms(2) by (simp add: grown_def)
    qed
    ultimately show ?thesis using f(1) by blast
  qed
qed

lemma grown_set_add:
  "d \<in> R \<Longrightarrow> grown registry R (depmap, toLoad) (depmap, set_add d toLoad)"
  by (auto simp: grown_def set_add_def)

lemma dep_edgesI:
  "map_of registry n = Some fixture \<Longrightarrow> d \<in> set (dependencies fixture) \<Longrightarrow> (n, d) \<in> dep_edges registry"
  by (auto simp: dep_edges_def)

lemma loadDeps_grown:
  "loadDeps registry n st = Inr st' \<Longrightarrow>
     grown registry ((dep_edges registry)\<^sup>* `` {n}) st st' \<and> map_of (fst st') n \<noteq> None"
  "loadDeps_each registry ds st = Inr st' \<Longrightarrow>
     grown registry ((dep_edges registry)\<^sup>* `` set ds) st st' \<and>
     (\<forall>d \<in> set ds. map_of (fst st') d \<noteq> None) \<and> set ds \<subseteq> set (snd st')"
proof (induction registry n st and registry ds st arbitrary: st' and st'
       rule: loadDeps_loadDeps_each.induct)
  case (1 registry n depmap toLoad)
  let ?E = "dep_edges registry"
  show ?case
  proof (cases "map_of depmap n \<noteq> None")
    case True
    then show ?thesis using 1(2) by (auto simp: grown_refl)
  next
    case False
    then obtain fixture where fx: "getFixture registry n = Inr (Own fixture)"
      and inner: "loadDeps_each registry (dependencies fixture)
                    (AList.update n (dependencies fixture) depmap, toLoad) = Inr st'"
      using 1(2) by (auto split: sum.splits found.splits)
    let ?ds = "dependencies fixture"
    let ?st1 = "(AList.update n ?ds depmap, toLoad)"
    from fx have reg: "map_of registry n = Some fixture"
      by (simp add: getFixture_Own)
    from 1(1)[OF _ fx refl inner] False
    have g: "grown registry (?E\<^sup>* `` set ?ds) ?st1 st'"
      and has: "\<forall>d \<in> set ?ds. map_of (fst st') d \<noteq> None"
      and sub: "set ?ds \<subseteq> set (snd st')"
      by auto
    have sub_reach: "?E\<^sup>* `` set ?ds \<subseteq> ?E\<^sup>* `` {n}"
    proof
      fix k assume "k \<in> ?E\<^sup>* `` set ?ds"
      then obtain d where "d \<in> set ?ds" "(d, k) \<in> ?E\<^sup>*" by auto
      moreover from this reg have "(n, d) \<in> ?E" by (auto intro: dep_edgesI)
      ultimately show "k \<in> ?E\<^sup>* `` {n}" by (auto intro: converse_rtrancl_into_rtrancl)
    qed
    have n': "map_of (fst st') n = Some ?ds"
      using g by (simp add: grown_def update_conv')
    have "grown registry (?E\<^sup>* `` {n}) (depmap, toLoad) st'"
      unfolding grown_def
    proof (intro conjI allI impI)
      fix k v assume kv: "map_of (fst (depmap, toLoad)) k = Some v"
      with False have "k \<noteq> n" by auto
      with kv have "map_of (fst ?st1) k = Some v" by (simp add: update_conv')
      then show "map_of (fst st') k = Some v" using g by (simp add: grown_def)
    next
      show "set (snd (depmap, toLoad)) \<subseteq> set (snd st')"
        using g by (simp add: grown_def)
    next
      have "set (snd st') \<subseteq> set toLoad \<union> ?E\<^sup>* `` set ?ds"
        using grown_toLoad_bound[OF g] by simp
      then show "set (snd st') \<subseteq> set (snd (depmap, toLoad)) \<union> ?E\<^sup>* `` {n}"
        using sub_reach by auto
    next
      assume "distinct (snd (depmap, toLoad))"
      then show "distinct (snd st')" using g by (simp add: grown_def)
    next
      fix k assume new: "map_of (fst (depmap, toLoad)) k = None" "map_of (fst st') k \<noteq> None"
      show "k \<in> ?E\<^sup>* `` {n}"
      proof (cases "k = n")
        case True then show ?thesis by simp
      next
        case False
        with new have "map_of (fst ?st1) k = None" by (simp add: update_conv')
        with new g have "k \<in> ?E\<^sup>* `` set ?ds" unfolding grown_def by blast
        then show ?thesis using sub_reach by blast
      qed
      show "\<exists>fixture. map_of registry k = Some fixture \<and>
           map_of (fst st') k = Some (dependencies fixture) \<and>
           set (dependencies fixture) \<subseteq> set (snd st') \<and>
           (\<forall>d \<in> set (dependencies fixture). map_of (fst st') d \<noteq> None)"
      proof (cases "k = n")
        case True
        then show ?thesis using reg n' sub has by blast
      next
        case False
        with new have "map_of (fst ?st1) k = None" by (simp add: update_conv')
        with new g show ?thesis unfolding grown_def by blast
      qed
    qed
    then show ?thesis using n' by simp
  qed
next
  case (2 registry st)
  then show ?case by (simp add: grown_refl)
next
  case (3 registry dep d depmap toLoad)
  let ?E = "dep_edges registry"
  from 3(3) obtain st1 where
    first: "loadDeps registry dep (depmap, set_add dep toLoad) = Inr st1"
    and rest: "loadDeps_each registry d st1 = Inr st'"
    by (auto split: sum.splits)
  from 3(1)[OF first] have g1: "grown registry (?E\<^sup>* `` {dep}) (depmap, set_add dep toLoad) st1"
    and has1: "map_of (fst st1) dep \<noteq> None" by auto
  from 3(2)[OF first rest] have g2: "grown registry (?E\<^sup>* `` set d) st1 st'"
    and has2: "\<forall>x \<in> set d. map_of (fst st') x \<noteq> None" and sub2: "set d \<subseteq> set (snd st')" by auto
  have g0: "grown registry (?E\<^sup>* `` {dep}) (depmap, toLoad) (depmap, set_add dep toLoad)"
    by (rule grown_set_add) simp
  have g01: "grown registry (?E\<^sup>* `` {dep}) (depmap, toLoad) st1"
    by (rule grown_trans[OF g0 g1]) auto
  have g: "grown registry (?E\<^sup>* `` set (dep # d)) (depmap, toLoad) st'"
    by (rule grown_trans[OF g01 g2]) auto
  have "dep \<in> set (snd st1)"
    using g1 by (auto simp: grown_def set_add_def split: if_splits)
  then have "dep \<in> set (snd st')" using g2 unfolding grown_def by blast
  moreover have "map_of (fst st') dep \<noteq> None"
    using has1 g2 by (auto simp: grown_def)
  ultimately show ?case using g has2 sub2 by auto
qed

lemma loadDeps_fails:
  "loadDeps registry n st = Inl err \<Longrightarrow>
     \<exists>k. err = build_error k \<and> (n, k) \<in> (dep_edges registry)\<^sup>* \<and> map_of registry k = None"
  "loadDeps_each registry ds st = Inl err \<Longrightarrow>
     \<exists>k. err = build_error k \<and> k \<in> (dep_edges registry)\<^sup>* `` set ds \<and> map_of registry k = None"
proof (induction registry n st and registry ds st arbitrary: err and err
       rule: loadDeps_loadDeps_each.induct)
  case (1 registry n depmap toLoad)
  from 1(2) have nohas: "\<not> map_of depmap n \<noteq> None" by (auto split: if_splits)
  show ?case
  proof (cases "getFixture registry n")
    case (Inl e)
    then have "err = build_error n" "map_of registry n = None"
      using 1(2) nohas
      by (auto simp: getFixture_def build_error_def split: option.splits if_splits)
    then show ?thesis by blast
  next
    case (Inr x)
    show ?thesis
    proof (cases x)
      case Inherited
      with Inr have "err = build_error n" "map_of registry n = None"
        using 1(2) nohas
        by (auto simp: getFixture_def build_error_def split: option.splits if_splits)
      then show ?thesis by blast
    next
      case (Own fixture)
      with Inr have fx: "getFixture registry n = Inr (Own fixture)" by simp
      then have inner: "loadDeps_each registry (dependencies fixture)
                    (AList.update n (dependencies fixture) depmap, toLoad) = Inl err"
        using 1(2) nohas by auto
      from fx have reg: "map_of registry n = Some fixture"
        by (simp add: getFixture_Own)
      from 1(1)[OF nohas fx refl inner] obtain k d where
        k: "err = build_error k" "map_of registry k = None"
        and d: "d \<in> set (dependencies fixture)" "(d, k) \<in> (dep_edges registry)\<^sup>*"
        by auto
      from d(1) reg have "(n, d) \<in> dep_edges registry" by (auto intro: dep_edgesI)
      with d(2) have "(n, k) \<in> (dep_edges registry)\<^sup>*"
        by (auto intro: converse_rtrancl_into_rtrancl)
      with k show ?thesis by blast
    qed
  qed
next
  case (2 registry st)
  then show ?case by simp
next
  case (3 registry dep d depmap toLoad)
  show ?case
  proof (cases "loadDeps registry dep (depmap, set_add dep toLoad)")
    case (Inl e)
    then have "e = err" using 3(3) by simp
    with 3(1)[of e] Inl show ?thesis by auto
  next
    case (Inr st1)
    then have "loadDeps_each registry d st1 = Inl err" using 3(3) by simp
    from 3(2)[OF Inr this] show ?thesis by auto
  qed
qed

lemma load_requested_grown:
  "load_requested registry names st = Inr st' \<Longrightarrow>
     grown registry ((dep_edges registry)\<^sup>* `` set names) st st' \<and>
     (\<forall>n \<in> set names. map_of (fst st') n \<noteq> None)"
proof (induction names arbitrary: st)
  case Nil
  then show ?case by (simp add: grown_refl)
next
  case (Cons name rest)
  let ?E = "dep_edges registry"
  from Cons.prems obtain st1 where
    first: "loadDeps registry name st = Inr st1"
    and more: "load_requested registry rest st1 = Inr st'"
    by (auto split: sum.splits)
  from loadDeps_grown(1)[OF first] have g1: "grown registry (?E\<^sup>* `` {name}) st st1"
    and has1: "map_of (fst st1) name \<noteq> None" by auto
  from Cons.IH[OF more] have g2: "grown registry (?E\<^sup>* `` set rest) st1 st'"
    and has2: "\<forall>n \<in> set rest. map_of (fst st') n \<noteq> None" by auto
  have "grown registry (?E\<^sup>* `` set (name # rest)) st st'"
    by (rule grown_trans[OF g1 g2]) auto
  moreover have "map_of (fst st') name \<noteq> None"
    using has1 grown_keeps[OF g2] by auto
  ultimately show ?case using has2 by auto
qed

lemma load_requested_fails:
  "load_requested registry names st = Inl err \<Longrightarrow>
     \<exists>k. err = build_error k \<and> k \<in> (dep_edges registry)\<^sup>* `` set names \<and>
         map_of registry k = None"
proof (induction names arbitrary: st)
  case Nil
  then show ?case by simp
next
  case (Cons name rest)
  show ?case
  proof (cases "loadDeps registry name st")
    case (Inl e)
    then have "e = err" using Cons.prems by simp
    with loadDeps_fails(1)[of registry name st e] Inl show ?thesis by auto
  next
    case (Inr st1)
    then have "load_requested registry rest st1 = Inl err" using Cons.prems by simp
    from Cons.IH[OF this] show ?thesis by auto
  qed
qed

lemma set_fold_set_add: "set (fold set_add xs acc) = set xs \<union> set acc"
  by (induction xs arbitrary: acc) (auto simp: set_add_def)

lemma distinct_fold_set_add: "distinct acc \<Longrightarrow> distinct (fold set_add xs acc)"
  by (induction xs arbitrary: acc) (auto simp: set_add_def)

lemma set_new_Set: "set (new_Set xs) = set xs"
  by (simp add: new_Set_def set_fold_set_add)

lemma distinct_new_Set: "distinct (new_Set xs)"
  by (simp add: new_Set_def distinct_fold_set_add)

lemma build_graph_fails:
  assumes "build_graph registry requested = Inl err"
  shows "\<exists>k. err = build_error k \<and> k \<in> closure registry requested \<and> map_of registry k = None"
  using load_requested_fails[of registry requested _ err] assms
  by (simp add: build_graph_def closure_def)

lemma build_graph_success:
  assumes "build_graph registry requested = Inr (depmap, toLoad)"
  shows "set toLoad = closure registry requested"
    and "distinct toLoad"
    and "dom (map_of depmap) = closure registry requested"
    and "\<And>n. n \<in> closure registry requested \<Longrightarrow>
           \<exists>fixture. map_of registry n = Some fixture \<and> map_of depmap n = Some (dependencies fixture)"
proof -
  let ?E = "dep_edges registry"
  let ?C = "closure registry requested"
  from assms have run: "load_requested registry requested ([], new_Set requested) = Inr (depmap, toLoad)"
    by (simp add: build_graph_def)
  from load_requested_grown[OF run]
  have g: "grown registry ?C ([], new_Set requested) (depmap, toLoad)"
    and has: "\<forall>n \<in> set requested. map_of depmap n \<noteq> None"
    by (auto simp: closure_def)
  have key: "\<exists>fixture. map_of registry k = Some fixture \<and>
           map_of depmap k = Some (dependencies fixture) \<and>
           set (dependencies fixture) \<subseteq> set toLoad \<and>
           (\<forall>d \<in> set (dependencies fixture). map_of depmap d \<noteq> None)"
    and key_in: "k \<in> ?C"
    if "map_of depmap k \<noteq> None" for k
    using grown_new[OF g, of k] that by auto
  have closed: "map_of depmap n \<noteq> None" if "n \<in> ?C" for n
  proof -
    from that obtain r where r: "r \<in> set requested" "(r, n) \<in> ?E\<^sup>*"
      by (auto simp: closure_def)
    from r(2) show ?thesis
    proof (induction rule: rtrancl_induct)
      case base
      then show ?case using has r(1) by blast
    next
      case (step y z)
      from key[OF step.IH] obtain fixture where f: "map_of registry y = Some fixture"
        "\<forall>d \<in> set (dependencies fixture). map_of depmap d \<noteq> None" by blast
      from step.hyps(2) f(1) have "z \<in> set (dependencies fixture)"
        by (auto simp: dep_edges_def)
      with f(2) show ?case by blast
    qed
  qed
  show dom: "dom (map_of depmap) = ?C"
    using closed key_in by (auto simp: dom_def)
  show "\<exists>fixture. map_of registry n = Some fixture \<and> map_of depmap n = Some (dependencies fixture)"
    if "n \<in> ?C" for n
    using key[OF closed[OF that]] by blast
  show "distinct toLoad"
    using grown_distinct[OF g] by (simp add: distinct_new_Set)
  have req: "set requested \<subseteq> ?C" by (auto simp: closure_def)
  show "set toLoad = ?C"
  proof
    show "set toLoad \<subseteq> ?C"
      using grown_toLoad_bound[OF g] req by (auto simp: set_new_Set)
    show "?C \<subseteq> set toLoad"
    proof
      fix n assume "n \<in> ?C"
      then obtain r where r: "r \<in> set requested" "(r, n) \<in> ?E\<^sup>*"
        by (auto simp: closure_def)
      from r(2) show "n \<in> set toLoad"
      proof (cases rule: rtranclE)
        case base
        then show ?thesis using r(1) grown_toLoad_mono[OF g] by (auto simp: set_new_Set)
      next
        case (step y)
        then have "y \<in> ?C" using r(1) by (auto simp: closure_def)
        from key[OF closed[OF this]] obtain fixture where f: "map_of registry y = Some fixture"
          "set (dependencies fixture) \<subseteq> set toLoad" by blast
        from step(2) f(1) have "n \<in> set (dependencies fixture)"
          by (auto simp: dep_edges_def)
        with f(2) show ?thesis by blast
      qed
    qed
  qed
qed

lemma closure_requested: "r \<in> set requested \<Longrightarrow> r \<in> closure registry requested"
  by (auto simp: closure_def)

lemma closure_closed:
  "n \<in> closure registry requested \<Longrightarrow> (n, d) \<in> (dep_edges registry)\<^sup>* \<Longrightarrow>
     d \<in> closure registry requested"
  unfolding closure_def by (auto intro: rtrancl_trans)

lemma closure_subset:
  assumes "set requested \<subseteq> S"
    and "\<And>n d. n \<in> S \<Longrightarrow> (n, d) \<in> dep_edges registry \<Longrightarrow> d \<in> S"
  shows "closure registry requested \<subseteq> S"
proof
  fix k assume "k \<in> closure registry requested"
  then obtain r where r: "r \<in> set requested" and reach: "(r, k) \<in> (dep_edges registry)\<^sup>*"
    by (auto simp: closure_def)
  from reach r assms(1) show "k \<in> S"
  proof (induction rule: rtrancl_induct)
    case base
    then show ?case by auto
  next
    case (step y z)
    from step.IH[OF step.prems] step.hyps(2) show ?case by (rule assms(2))
  qed
qed

section \<open>Correctness of the topological sorter\<close>

lemma visit_visiting:
  "visit depmap name st = Inr st' \<Longrightarrow> snd (snd st') = snd (snd st)"
  "visit_each depmap ds st = Inr st' \<Longrightarrow> snd (snd st') = snd (snd st)"
proof (induction depmap name st and depmap ds st arbitrary: st' and st'
       rule: visit_visit_each.induct)
  case (1 depmap name sorted_acc visited visiting)
  show ?case
  proof (cases "name \<in> visited \<or> name \<in> visiting")
    case True
    then show ?thesis using 1(2) by (auto split: if_splits)
  next
    case False
    show ?thesis
    proof (cases "map_of depmap name")
      case None
      then show ?thesis using False 1(2) by auto
    next
      case (Some ds)
      from Some False 1(2) obtain s' vd' vg' where
        inner: "visit_each depmap ds (sorted_acc, visited, insert name visiting) = Inr (s', vd', vg')"
        and st': "st' = (s' @ [name], insert name vd', vg' - {name})"
        by (auto split: sum.splits)
      from 1(1)[OF _ _ Some inner] False have "vg' = insert name visiting" by simp
      then show ?thesis using st' False by auto
    qed
  qed
next
  case (2 depmap st)
  then show ?case by simp
next
  case (3 depmap dep ds st)
  then show ?case by (auto split: sum.splits)
qed

lemma deps_before_Nil: "deps_before E []"
  by (simp add: deps_before_def)

lemma deps_before_snoc:
  "deps_before E (xs @ [n]) \<longleftrightarrow> deps_before E xs \<and> (\<forall>d. (n, d) \<in> E \<longrightarrow> d \<in> set xs)"
proof
  assume a: "deps_before E (xs @ [n])"
  have "deps_before E xs"
    unfolding deps_before_def
  proof (intro allI impI)
    fix i d assume i: "i < length xs" and e: "(xs ! i, d) \<in> E"
    from i have "(xs @ [n]) ! i = xs ! i" "take i (xs @ [n]) = take i xs"
      by (simp_all add: nth_append)
    moreover from i have "i < length (xs @ [n])" by simp
    ultimately show "d \<in> set (take i xs)"
      using a[unfolded deps_before_def, rule_format, of i d] e by simp
  qed
  moreover have "\<forall>d. (n, d) \<in> E \<longrightarrow> d \<in> set xs"
  proof (intro allI impI)
    fix d assume "(n, d) \<in> E"
    with a[unfolded deps_before_def, rule_format, of "length xs" d]
    show "d \<in> set xs" by simp
  qed
  ultimately show "deps_before E xs \<and> (\<forall>d. (n, d) \<in> E \<longrightarrow> d \<in> set xs)" ..
next
  assume b: "deps_before E xs \<and> (\<forall>d. (n, d) \<in> E \<longrightarrow> d \<in> set xs)"
  show "deps_before E (xs @ [n])"
    unfolding deps_before_def
  proof (intro allI impI)
    fix i d assume i: "i < length (xs @ [n])" and e: "((xs @ [n]) ! i, d) \<in> E"
    show "d \<in> set (take i (xs @ [n]))"
    proof (cases "i < length xs")
      case True
      then have "(xs @ [n]) ! i = xs ! i" "take i (xs @ [n]) = take i xs"
        by (simp_all add: nth_append)
      moreover from b have "deps_before E xs" ..
      ultimately show ?thesis
        using True e by (simp add: deps_before_def)
    next
      case False
      with i have "i = length xs" by simp
      with b e show ?thesis by simp
    qed
  qed
qed

lemma visit_sorted:
  "visit depmap n st = Inr st' \<Longrightarrow> sort_inv (graph_edges depmap) st \<Longrightarrow>
     sort_inv (graph_edges depmap) st' \<and> n \<in> set (fst st') \<and>
     (\<exists>ys. fst st' = fst st @ ys \<and> set ys \<subseteq> (graph_edges depmap)\<^sup>* `` {n})"
  "visit_each depmap ds st = Inr st' \<Longrightarrow> sort_inv (graph_edges depmap) st \<Longrightarrow>
     sort_inv (graph_edges depmap) st' \<and> set ds \<subseteq> set (fst st') \<and>
     (\<exists>ys. fst st' = fst st @ ys \<and> set ys \<subseteq> (graph_edges depmap)\<^sup>* `` set ds)"
proof (induction depmap n st and depmap ds st arbitrary: st' and st'
       rule: visit_visit_each.induct)
  case (1 depmap name s vd vg)
  let ?E = "graph_edges depmap"
  note inv = 1(3)
  show ?case
  proof (cases "name \<in> vd")
    case True
    then show ?thesis using 1(2) inv by (auto simp: sort_inv_def)
  next
    case False
    with 1(2) have nvg: "name \<notin> vg" by (auto split: if_splits)
    have inv1: "sort_inv ?E (s, vd, insert name vg)"
      using inv False by (auto simp: sort_inv_def)
    obtain s' vd' vg' where
      inner: "(case map_of depmap name of
                 None \<Rightarrow> Inr (s, vd, insert name vg)
               | Some ds \<Rightarrow> visit_each depmap ds (s, vd, insert name vg)) = Inr (s', vd', vg')"
      and st': "st' = (s' @ [name], insert name vd', vg' - {name})"
      using 1(2) False nvg by (auto split: sum.splits)
    have mid: "sort_inv ?E (s', vd', vg') \<and> vg' = insert name vg \<and>
               (\<forall>d. (name, d) \<in> ?E \<longrightarrow> d \<in> set s') \<and>
               (\<exists>ys. s' = s @ ys \<and> set ys \<subseteq> ?E\<^sup>* `` {name})"
    proof (cases "map_of depmap name")
      case None
      then have "\<forall>d. (name, d) \<notin> ?E" by (simp add: graph_edges_def)
      moreover from None inner have "s' = s" "vd' = vd" "vg' = insert name vg" by simp_all
      ultimately show ?thesis using inv1 by simp
    next
      case (Some ds)
      with inner have run: "visit_each depmap ds (s, vd, insert name vg) = Inr (s', vd', vg')"
        by simp
      from 1(1)[OF False nvg Some run inv1]
      have i': "sort_inv ?E (s', vd', vg')" and sub: "set ds \<subseteq> set s'"
        and ys: "\<exists>ys. s' = s @ ys \<and> set ys \<subseteq> ?E\<^sup>* `` set ds" by auto
      from visit_visiting(2)[OF run] have vg': "vg' = insert name vg" by simp
      have succ: "(name, d) \<in> ?E \<longleftrightarrow> d \<in> set ds" for d
        using Some by (auto simp: graph_edges_def)
      have "?E\<^sup>* `` set ds \<subseteq> ?E\<^sup>* `` {name}"
      proof
        fix k assume "k \<in> ?E\<^sup>* `` set ds"
        then obtain d where d: "d \<in> set ds" "(d, k) \<in> ?E\<^sup>*" by blast
        from d(1) have "(name, d) \<in> ?E" by (simp add: succ)
        from converse_rtrancl_into_rtrancl[OF this d(2)] show "k \<in> ?E\<^sup>* `` {name}" by simp
      qed
      with ys have "\<exists>ys. s' = s @ ys \<and> set ys \<subseteq> ?E\<^sup>* `` {name}" by blast
      moreover have "\<forall>d. (name, d) \<in> ?E \<longrightarrow> d \<in> set s'" using sub succ by blast
      ultimately show ?thesis using i' vg' by simp
    qed
    then obtain ys where i': "sort_inv ?E (s', vd', vg')" and vg': "vg' = insert name vg"
      and succ: "\<forall>d. (name, d) \<in> ?E \<longrightarrow> d \<in> set s'"
      and ys: "s' = s @ ys" "set ys \<subseteq> ?E\<^sup>* `` {name}" by blast
    from i' vg' have fresh: "name \<notin> set s'" by (auto simp: sort_inv_def)
    have "sort_inv ?E st'"
      using i' fresh succ unfolding st' sort_inv_def
      by (simp add: deps_before_snoc) blast
    moreover have "fst st' = fst (s, vd, vg) @ (ys @ [name])" using st' ys by simp
    moreover have "set (ys @ [name]) \<subseteq> ?E\<^sup>* `` {name}" using ys(2) by auto
    moreover have "name \<in> set (fst st')" using st' by simp
    ultimately show ?thesis by blast
  qed
next
  case (2 depmap st)
  then show ?case by simp
next
  case (3 depmap dep ds st)
  let ?E = "graph_edges depmap"
  from 3(3) obtain st1 where
    first: "visit depmap dep st = Inr st1" and rest: "visit_each depmap ds st1 = Inr st'"
    by (auto split: sum.splits)
  from 3(1)[OF first 3(4)] obtain ys1 where i1: "sort_inv ?E st1" and in1: "dep \<in> set (fst st1)"
    and ys1: "fst st1 = fst st @ ys1" "set ys1 \<subseteq> ?E\<^sup>* `` {dep}" by blast
  from 3(2)[OF first rest i1] obtain ys2 where i2: "sort_inv ?E st'" and in2: "set ds \<subseteq> set (fst st')"
    and ys2: "fst st' = fst st1 @ ys2" "set ys2 \<subseteq> ?E\<^sup>* `` set ds" by blast
  have "fst st' = fst st @ (ys1 @ ys2)" using ys1 ys2 by simp
  moreover have "set (ys1 @ ys2) \<subseteq> ?E\<^sup>* `` set (dep # ds)" using ys1(2) ys2(2) by auto
  moreover have "set (dep # ds) \<subseteq> set (fst st')" using in1 in2 ys2(1) by auto
  ultimately show ?case using i2 by blast
qed

lemma visit_fails:
  "visit depmap n st = Inl err \<Longrightarrow>
     \<exists>m. err = CircularDependency m \<and> (n, m) \<in> (graph_edges depmap)\<^sup>* \<and>
         (m \<in> snd (snd st) \<or> (m, m) \<in> (graph_edges depmap)\<^sup>+)"
  "visit_each depmap ds st = Inl err \<Longrightarrow>
     \<exists>m. err = CircularDependency m \<and> m \<in> (graph_edges depmap)\<^sup>* `` set ds \<and>
         (m \<in> snd (snd st) \<or> (m, m) \<in> (graph_edges depmap)\<^sup>+)"
proof (induction depmap n st and depmap ds st arbitrary: err and err
       rule: visit_visit_each.induct)
  case (1 depmap name s vd vg)
  let ?E = "graph_edges depmap"
  from 1(2) have nvd: "name \<notin> vd" by (auto split: if_splits)
  show ?case
  proof (cases "name \<in> vg")
    case True
    with 1(2) nvd have "err = CircularDependency name" by simp
    with True show ?thesis by auto
  next
    case False
    show ?thesis
    proof (cases "map_of depmap name")
      case None
      with 1(2) nvd False show ?thesis by simp
    next
      case (Some ds)
      with 1(2) nvd False
      have run: "visit_each depmap ds (s, vd, insert name vg) = Inl err"
        by (auto split: sum.splits)
      from 1(1)[OF nvd False Some run] obtain m d where
        m: "err = CircularDependency m" and d: "d \<in> set ds" "(d, m) \<in> ?E\<^sup>*"
        and alt: "m = name \<or> m \<in> vg \<or> (m, m) \<in> ?E\<^sup>+"
        by auto
      from d(1) Some have edge: "(name, d) \<in> ?E" by (auto simp: graph_edges_def)
      from converse_rtrancl_into_rtrancl[OF edge d(2)] have reach: "(name, m) \<in> ?E\<^sup>*" .
      have "m \<in> vg \<or> (m, m) \<in> ?E\<^sup>+"
      proof (cases "m = name")
        case True
        from rtrancl_into_trancl2[OF edge d(2)] True show ?thesis by simp
      next
        case False
        with alt show ?thesis by simp
      qed
      with m reach show ?thesis by simp
    qed
  qed
next
  case (2 depmap st)
  then show ?case by simp
next
  case (3 depmap dep ds st)
  show ?case
  proof (cases "visit depmap dep st")
    case (Inl e)
    then have "e = err" using 3(3) by simp
    with 3(1)[of e] Inl show ?thesis by auto
  next
    case (Inr st1)
    then have "visit_each depmap ds st1 = Inl err" using 3(3) by simp
    from 3(2)[OF Inr this] visit_visiting(1)[OF Inr] show ?thesis by auto
  qed
qed

lemma deps_before_closed:
  assumes "deps_before E xs" and "n \<in> set xs" and "(n, d) \<in> E\<^sup>*"
  shows "d \<in> set xs"
  using assms(3,2)
proof (induction rule: rtrancl_induct)
  case base
  then show ?case .
next
  case (step y z)
  then have "y \<in> set xs" by simp
  then obtain i where i: "i < length xs" "xs ! i = y" by (auto simp: in_set_conv_nth)
  with assms(1) step.hyps(2) have "z \<in> set (take i xs)" by (auto simp: deps_before_def)
  then show ?case by (rule in_set_takeD)
qed

lemma sortFixtures_success:
  assumes "sortFixtures fixtures depmap = Inr sorted_names"
  shows "distinct sorted_names"
    and "set sorted_names = (graph_edges depmap)\<^sup>* `` set fixtures"
    and "deps_before (graph_edges depmap) sorted_names"
proof -
  let ?E = "graph_edges depmap"
  from assms obtain vd vg where
    run: "visit_each depmap fixtures ([], {}, {}) = Inr (sorted_names, vd, vg)"
    by (auto simp: sortFixtures_def split: sum.splits)
  have "sort_inv ?E ([], {}, {})" by (simp add: sort_inv_def deps_before_Nil)
  from visit_sorted(2)[OF run this]
  have inv: "sort_inv ?E (sorted_names, vd, vg)" and sub: "set fixtures \<subseteq> set sorted_names"
    and reach: "set sorted_names \<subseteq> ?E\<^sup>* `` set fixtures" by auto
  from inv show "distinct sorted_names" and db: "deps_before ?E sorted_names"
    by (simp_all add: sort_inv_def)
  have "?E\<^sup>* `` set fixtures \<subseteq> set sorted_names"
    using deps_before_closed[OF db] sub by blast
  with reach show "set sorted_names = ?E\<^sup>* `` set fixtures" by blast
qed

lemma sortFixtures_fails:
  assumes "sortFixtures fixtures depmap = Inl err"
  shows "\<exists>m. err = CircularDependency m \<and> m \<in> (graph_edges depmap)\<^sup>* `` set fixtures \<and>
             (m, m) \<in> (graph_edges depmap)\<^sup>+"
proof -
  from assms have "visit_each depmap fixtures ([], {}, {}) = Inl err"
    by (auto simp: sortFixtures_def split: sum.splits)
  from visit_fails(2)[OF this] show ?thesis by simp
qed

lemma deps_before_precedes:
  assumes "deps_before E xs" and "n \<in> set xs" and "(n, d) \<in> E"
  shows "precedes xs d n"
proof -
  from assms(2) obtain i where i: "i < length xs" "xs ! i = n" by (auto simp: in_set_conv_nth)
  with assms(1,3) have "d \<in> set (take i xs)" by (auto simp: deps_before_def)
  then obtain j where "j < length (take i xs)" "take i xs ! j = d"
    by (auto simp: in_set_conv_nth)
  then have "j < i" "xs ! j = d" using i(1) by simp_all
  with i show ?thesis unfolding precedes_def by blast
qed

lemma precedes_trans:
  assumes "distinct xs" and "precedes xs a b" and "precedes xs b c"
  shows "precedes xs a c"
proof -
  from assms(2) obtain i j where ab: "j < i" "i < length xs" "xs ! i = b" "xs ! j = a"
    unfolding precedes_def by blast
  from assms(3) obtain i' j' where bc: "j' < i'" "i' < length xs" "xs ! i' = c" "xs ! j' = b"
    unfolding precedes_def by blast
  from ab bc have "xs ! i = xs ! j'" "i < length xs" "j' < length xs" by simp_all
  with assms(1) have "i = j'" by (simp add: nth_eq_iff_index_eq)
  with ab bc have "j < i'" by simp
  with bc ab show ?thesis unfolding precedes_def by blast
qed

lemma precedes_irrefl:
  assumes "distinct xs"
  shows "\<not> precedes xs a a"
proof
  assume "precedes xs a a"
  then obtain i j where ij: "j < i" "i < length xs" "xs ! i = a" "xs ! j = a"
    unfolding precedes_def by blast
  then have "xs ! i = xs ! j" "i < length xs" "j < length xs" by simp_all
  with assms have "i = j" by (simp add: nth_eq_iff_index_eq)
  with ij(1) show False by simp
qed

lemma precedes_in_set: "precedes xs d n \<Longrightarrow> d \<in> set xs \<and> n \<in> set xs"
  unfolding precedes_def by (metis dual_order.strict_trans nth_mem)

lemma trancl_precedes:
  assumes "distinct xs" and "deps_before E xs" and "(n, m) \<in> E\<^sup>+" and "n \<in> set xs"
  shows "precedes xs m n"
  using assms(3,4)
proof (induction rule: trancl_induct)
  case (base y)
  then show ?case using deps_before_precedes[OF assms(2)] by blast
next
  case (step y z)
  then have yn: "precedes xs y n" by simp
  then have "y \<in> set xs" by (simp add: precedes_in_set)
  from deps_before_precedes[OF assms(2) this step.hyps(2)] have "precedes xs z y" .
  from precedes_trans[OF assms(1) this yn] show ?case .
qed

lemma deps_before_acyclic:
  assumes "distinct xs" and "deps_before E xs" and "n \<in> set xs"
  shows "(n, n) \<notin> E\<^sup>+"
  using trancl_precedes[OF assms(1,2) _ assms(3)] precedes_irrefl[OF assms(1)] by blast

section \<open>The order in which \<^verbatim>\<open>setup\<close> runs the fixtures\<close>

lemma build_graph_edges:
  assumes "build_graph registry requested = Inr (depmap, toLoad)"
  shows "graph_edges depmap \<subseteq> dep_edges registry"
    and "n \<in> closure registry requested \<Longrightarrow> (n, d) \<in> dep_edges registry \<Longrightarrow>
           (n, d) \<in> graph_edges depmap"
proof -
  note bg = build_graph_success[OF assms]
  show "graph_edges depmap \<subseteq> dep_edges registry"
  proof
    fix e assume "e \<in> graph_edges depmap"
    then obtain a b ds where e: "e = (a, b)" "map_of depmap a = Some ds" "b \<in> set ds"
      by (auto simp: graph_edges_def)
    then have "a \<in> closure registry requested" using bg(3) by auto
    from bg(4)[OF this] e show "e \<in> dep_edges registry"
      by (auto simp: dep_edges_def)
  qed
  show "(n, d) \<in> graph_edges depmap"
    if "n \<in> closure registry requested" "(n, d) \<in> dep_edges registry"
    using bg(4)[OF that(1)] that(2) by (auto simp: dep_edges_def graph_edges_def)
qed

lemma build_graph_trancl:
  assumes "build_graph registry requested = Inr (depmap, toLoad)"
    and "(n, k) \<in> (dep_edges registry)\<^sup>+" and "n \<in> closure registry requested"
  shows "(n, k) \<in> (graph_edges depmap)\<^sup>+"
  using assms(2,3)
proof (induction rule: trancl_induct)
  case (base y)
  then show ?case using build_graph_edges(2)[OF assms(1)] by blast
next
  case (step y z)
  then have "(n, y) \<in> (dep_edges registry)\<^sup>*" by simp
  with step.prems have "y \<in> closure registry requested" by (rule closure_closed)
  with step.hyps(2) have "(y, z) \<in> graph_edges depmap"
    using build_graph_edges(2)[OF assms(1)] by blast
  with step.IH[OF step.prems] show ?case by simp
qed

lemma build_graph_reach:
  assumes "build_graph registry requested = Inr (depmap, toLoad)"
  shows "(graph_edges depmap)\<^sup>* `` set toLoad = closure registry requested"
proof
  note bg = build_graph_success[OF assms]
  show "(graph_edges depmap)\<^sup>* `` set toLoad \<subseteq> closure registry requested"
  proof
    fix k assume "k \<in> (graph_edges depmap)\<^sup>* `` set toLoad"
    then obtain n where n: "n \<in> set toLoad" "(n, k) \<in> (graph_edges depmap)\<^sup>*" by blast
    from n(2) build_graph_edges(1)[OF assms] have "(n, k) \<in> (dep_edges registry)\<^sup>*"
      by (rule rtrancl_mono[THEN subsetD, rotated])
    with n(1) bg(1) show "k \<in> closure registry requested" by (auto intro: closure_closed)
  qed
  show "closure registry requested \<subseteq> (graph_edges depmap)\<^sup>* `` set toLoad"
    using bg(1) by auto
qed

lemma sorted_order_success:
  assumes "sorted_order registry requested = Inr sorted_names"
  shows "distinct sorted_names"
    and "set sorted_names = closure registry requested"
    and "deps_before (dep_edges registry) sorted_names"
    and "no_missing registry requested"
    and "no_cycles registry requested"
proof -
  from assms obtain depmap toLoad where
    bg: "build_graph registry requested = Inr (depmap, toLoad)"
    and so: "sortFixtures toLoad depmap = Inr sorted_names"
    by (auto simp: sorted_order_def split: sum.splits)
  note g = build_graph_success[OF bg]
  note s = sortFixtures_success[OF so]
  show d: "distinct sorted_names" by (rule s(1))
  show set: "set sorted_names = closure registry requested"
    using s(2) build_graph_reach[OF bg] by simp
  show db: "deps_before (dep_edges registry) sorted_names"
    unfolding deps_before_def
  proof (intro allI impI)
    fix i d assume i: "i < length sorted_names" and e: "(sorted_names ! i, d) \<in> dep_edges registry"
    from i set have "sorted_names ! i \<in> closure registry requested" by (metis nth_mem)
    from build_graph_edges(2)[OF bg this e] s(3) i
    show "d \<in> set (take i sorted_names)" by (simp add: deps_before_def)
  qed
  show "no_missing registry requested"
    unfolding no_missing_def using g(4) by auto
  show "no_cycles registry requested"
    unfolding no_cycles_def using deps_before_acyclic[OF d db] set by blast
qed

lemma sorted_order_fails:
  assumes "sorted_order registry requested = Inl err"
  shows "(\<exists>k. err = build_error k \<and> k \<in> closure registry requested \<and> map_of registry k = None) \<or>
         (no_missing registry requested \<and>
          (\<exists>m. err = CircularDependency m \<and> m \<in> closure registry requested \<and>
               (m, m) \<in> (dep_edges registry)\<^sup>+))"
proof (cases "build_graph registry requested")
  case (Inl e)
  then have "e = err" using assms by (simp add: sorted_order_def)
  with build_graph_fails[OF Inl] show ?thesis by blast
next
  case (Inr g)
  obtain depmap toLoad where g: "g = (depmap, toLoad)" by (cases g)
  with Inr have bg: "build_graph registry requested = Inr (depmap, toLoad)" by simp
  with assms have "sortFixtures toLoad depmap = Inl err" by (simp add: sorted_order_def)
  from sortFixtures_fails[OF this] obtain m where m: "err = CircularDependency m"
    "m \<in> (graph_edges depmap)\<^sup>* `` set toLoad" "(m, m) \<in> (graph_edges depmap)\<^sup>+" by blast
  from m(2) build_graph_reach[OF bg] have "m \<in> closure registry requested" by simp
  moreover from m(3) build_graph_edges(1)[OF bg] have "(m, m) \<in> (dep_edges registry)\<^sup>+"
    by (rule trancl_mono)
  moreover have "no_missing registry requested"
    unfolding no_missing_def using build_graph_success(4)[OF bg] by auto
  ultimately show ?thesis using m(1) by blast
qed


lemma sorted_order_registered:
  assumes "sorted_order registry requested = Inr sorted_names" and "n \<in> set sorted_names"
  shows "map_of registry n \<noteq> None"
  using sorted_order_success(2,4)[OF assms(1)] assms(2) by (auto simp: no_missing_def)

lemma sorted_order_missing:
  assumes "sorted_order registry requested = Inl err" and "err = FixtureNotFound m"
  shows "build_graph registry requested = Inl (FixtureNotFound m)"
proof (cases "build_graph registry requested")
  case (Inl e)
  with assms show ?thesis by (simp add: sorted_order_def)
next
  case (Inr g)
  obtain depmap toLoad where "g = (depmap, toLoad)" by (cases g)
  with Inr assms(1) have "sortFixtures toLoad depmap = Inl err" by (simp add: sorted_order_def)
  from sortFixtures_fails[OF this] assms(2) show ?thesis by auto
qed

lemma fixtures_setup_order:
  "fixtures_setup registry requested st w =
     (case sorted_order registry requested of
        Inl err \<Rightarrow> (Some (Error err), st, w, [])
      | Inr sorted_names \<Rightarrow>
          (case setup_loop registry sorted_names Map.empty (st\<lparr>cleanups := []\<rparr>) w of
             (None, vals, st', w', evs) \<Rightarrow> (None, st'\<lparr>deps := Some vals\<rparr>, w', evs)
           | (Some err, vals, st', w', evs) \<Rightarrow>
               (case run_cleanups (rev (cleanups st')) w' of
                  (None, w'', evs') \<Rightarrow>
                    (Some err, st'\<lparr>cleanups := [], deps := None\<rparr>, w'', evs @ evs')
                | (Some e, w'', evs') \<Rightarrow>
                    (Some (Rejected e), st', w'', evs @ evs'))))"
  by (simp add: fixtures_setup_def sorted_order_def split: sum.splits prod.splits)

section \<open>The setup loop and the cleanup loop\<close>

lemma setup_names_append: "setup_names (xs @ ys) = setup_names xs @ setup_names ys"
  by (induction xs rule: setup_names.induct) simp_all

lemma setup_names_loop:
  "length evs \<le> length names \<Longrightarrow>
   (\<forall>i < length evs. \<exists>v out. evs ! i = SetupCalled (names ! i) v out) \<Longrightarrow>
     setup_names evs = take (length evs) names"
proof (induction evs arbitrary: names)
  case Nil
  then show ?case by simp
next
  case (Cons ev evs)
  then obtain n rest where names: "names = n # rest" by (cases names) auto
  from Cons.prems(2) have "\<exists>v out. (ev # evs) ! 0 = SetupCalled (names ! 0) v out" by blast
  then obtain v out where ev: "ev = SetupCalled n v out" using names by auto
  have "\<forall>i < length evs. \<exists>v out. evs ! i = SetupCalled (rest ! i) v out"
  proof (intro allI impI)
    fix i assume "i < length evs"
    then have "Suc i < length (ev # evs)" by simp
    with Cons.prems(2) have "\<exists>v out. (ev # evs) ! Suc i = SetupCalled (names ! Suc i) v out"
      by blast
    then show "\<exists>v out. evs ! i = SetupCalled (rest ! i) v out" using names by simp
  qed
  moreover from Cons.prems(1) names have "length evs \<le> length rest" by simp
  ultimately have "setup_names evs = take (length evs) rest" by (rule Cons.IH[rotated])
  with ev names show ?case by simp
qed

text \<open>
  The cleanup loop calls the cleanups of an initial segment of the list it is given, in
  order, and nothing else; it calls all of them unless one throws.
\<close>

lemma run_cleanups_events:
  fixes evs :: "('v, 'w, 'e) event list"
  shows "run_cleanups cs w = (escaped, w', evs) \<Longrightarrow>
     length evs \<le> length cs \<and>
     (\<forall>i < length evs. \<exists>out. evs ! i = CleanupCalled (cs ! i) out) \<and>
     (escaped = None \<longrightarrow> length evs = length cs)"
proof (induction cs arbitrary: w escaped w' evs)
  case Nil
  then show ?case by simp
next
  case (Cons c cs)
  obtain out w1 where c: "c w = (out, w1)" by (cases "c w")
  show ?case
  proof (cases "\<exists>e. out = Throws e")
    case True
    with c Cons.prems show ?thesis by auto
  next
    case False
    obtain esc w2 and evs2 :: "('v, 'w, 'e) event list" where
      r: "run_cleanups cs w1 = (esc, w2, evs2)"
      by (cases "run_cleanups cs w1 :: 'e option \<times> 'w \<times> ('v, 'w, 'e) event list")
    from Cons.prems c r False have evs: "evs = CleanupCalled c out # evs2" and esc: "escaped = esc"
      by (cases out; simp)+
    from Cons.IH[OF r] have len: "length evs2 \<le> length cs"
      and nth: "\<forall>i < length evs2. \<exists>out. evs2 ! i = CleanupCalled (cs ! i) out"
      and all: "esc = None \<longrightarrow> length evs2 = length cs" by auto
    have "\<exists>out. evs ! i = CleanupCalled ((c # cs) ! i) out" if "i < length evs" for i
    proof (cases i)
      case 0
      then show ?thesis using evs by simp
    next
      case (Suc j)
      with that nth evs show ?thesis by simp
    qed
    with len all evs esc show ?thesis by simp
  qed
qed

lemma run_cleanups_setup_names:
  fixes evs :: "('v, 'w, 'e) event list"
  assumes "run_cleanups cs w = (escaped, w', evs)"
  shows "setup_names evs = []"
proof -
  from run_cleanups_events[OF assms]
  have each: "\<forall>i < length evs. \<exists>c out. evs ! i = CleanupCalled c out" by blast
  have "(\<forall>i < length xs. \<exists>c out. xs ! i = CleanupCalled c out) \<Longrightarrow> setup_names xs = []"
    for xs :: "('v, 'w, 'e) event list"
  proof (induction xs)
    case Nil
    then show ?case by simp
  next
    case (Cons x xs)
    from Cons.prems have "\<exists>c out. (x # xs) ! 0 = CleanupCalled c out" by blast
    then obtain c out where x: "x = CleanupCalled c out" by auto
    have "\<forall>i < length xs. \<exists>c out. xs ! i = CleanupCalled c out"
    proof (intro allI impI)
      fix i assume "i < length xs"
      then have "Suc i < length (x # xs)" by simp
      with Cons.prems have "\<exists>c out. (x # xs) ! Suc i = CleanupCalled c out" by blast
      then show "\<exists>c out. xs ! i = CleanupCalled c out" by simp
    qed
    from Cons.IH[OF this] x show ?case by simp
  qed
  from this[OF each] show ?thesis .
qed

lemma setup_loop_deps:
  "setup_loop registry names vals st w = (thrown, vals', st', w', evs) \<Longrightarrow> deps st' = deps st"
  by (induction names arbitrary: vals st w thrown vals' st' w' evs)
     (auto split: sum.splits prod.splits found.splits)

lemma setup_loop_length:
  "setup_loop registry names vals st w = (thrown, vals', st', w', evs) \<Longrightarrow>
     length evs \<le> length names"
  by (induction names arbitrary: vals st w thrown vals' st' w' evs)
     (auto split: sum.splits prod.splits found.splits)

lemma setup_loop_all:
  "setup_loop registry names vals st w = (None, vals', st', w', evs) \<Longrightarrow>
     length evs = length names"
  by (induction names arbitrary: vals st w vals' st' w' evs)
     (auto split: sum.splits prod.splits found.splits)

text \<open>
  The loop calls the setup operations of an initial segment of the names, in order; all
  but the last of those calls resolved.
\<close>

lemma setup_loop_events:
  "setup_loop registry names vals st w = (thrown, vals', st', w', evs) \<Longrightarrow>
     (\<forall>i < length evs. \<exists>v out. evs ! i = SetupCalled (names ! i) v out \<and>
        (\<forall>j < i. \<exists>v' r. evs ! j = SetupCalled (names ! j) v' (Inr r)))"
proof (induction names arbitrary: vals st w thrown vals' st' w' evs)
  case Nil
  then show ?case by simp
next
  case (Cons name rest)
  show ?case
  proof (cases "getFixture registry name")
    case (Inl err)
    with Cons.prems show ?thesis by auto
  next
    case (Inr x)
    show ?thesis
    proof (cases x)
      case Inherited
      with Inr Cons.prems show ?thesis by auto
    next
      case (Own fixture)
      obtain outcome vals1 w1 where op: "setup_op fixture vals w = (outcome, vals1, w1)"
        by (cases "setup_op fixture vals w")
      show ?thesis
      proof (cases outcome)
        case (Inl e)
        with Inr Own op Cons.prems show ?thesis by auto
      next
        case r: (Inr result)
        let ?st1 = "st\<lparr>cleanups := cleanups st @ [cleanup result]\<rparr>"
        obtain t1 v1 s1 wo e1 where
          rec: "setup_loop registry rest (assign name (fvalue result) vals1) ?st1 w1
                  = (t1, v1, s1, wo, e1)"
          by (metis prod_cases5)
        with Inr Own op r Cons.prems have evs: "evs = SetupCalled name vals (Inr result) # e1"
          by simp
        note IH = Cons.IH[OF rec, rule_format]
        show ?thesis
        proof (intro allI impI)
          fix i assume i: "i < length evs"
          show "\<exists>v out. evs ! i = SetupCalled ((name # rest) ! i) v out \<and>
            (\<forall>j < i. \<exists>v' r. evs ! j = SetupCalled ((name # rest) ! j) v' (Inr r))"
          proof (cases i)
            case 0
            then show ?thesis using evs by simp
          next
            case (Suc i')
            with i evs have i': "i' < length e1" by simp
            from IH[OF i'] obtain v out where
              ev: "e1 ! i' = SetupCalled (rest ! i') v out"
              and prev: "\<And>j. j < i' \<Longrightarrow> \<exists>v' r. e1 ! j = SetupCalled (rest ! j) v' (Inr r)"
              by blast
            have 1: "evs ! i = SetupCalled ((name # rest) ! i) v out"
              using ev evs Suc by simp
            have 2: "\<exists>v' r. evs ! j = SetupCalled ((name # rest) ! j) v' (Inr r)"
              if "j < i" for j
            proof (cases j)
              case 0
              then show ?thesis using evs by simp
            next
              case (Suc j')
              with that \<open>i = Suc i'\<close> have "j' < i'" by simp
              from prev[OF this] show ?thesis using evs Suc by simp
            qed
            from 1 2 show ?thesis by blast
          qed
        qed
      qed
    qed
  qed
qed

text \<open>
  When the setup operations leave the record as it is and no name is \<^verbatim>\<open>__proto__\<close>, the
  record that a setup operation is given holds what the loop started with and the value
  of every fixture set up before it.
\<close>

lemma setup_loop_records:
  assumes kept: "record_kept registry"
  shows "setup_loop registry names vals st w = (thrown, vals', st', w', evs) \<Longrightarrow>
     distinct names \<Longrightarrow> ''__proto__'' \<notin> set names \<Longrightarrow>
     (\<forall>i < length evs. \<forall>v out. evs ! i = SetupCalled (names ! i) v out \<longrightarrow>
        (\<forall>k. k \<notin> set (take i names) \<longrightarrow> v k = vals k) \<and>
        (\<forall>j < i. \<forall>v' r. evs ! j = SetupCalled (names ! j) v' (Inr r) \<longrightarrow>
                     v (names ! j) = Some (fvalue r)))"
proof (induction names arbitrary: vals st w thrown vals' st' w' evs)
  case Nil
  then show ?case by simp
next
  case (Cons name rest)
  show ?case
  proof (cases "getFixture registry name")
    case (Inl err)
    with Cons.prems show ?thesis by auto
  next
    case (Inr x)
    show ?thesis
    proof (cases x)
      case Inherited
      with Inr Cons.prems show ?thesis by auto
    next
      case (Own fixture)
      with Inr have reg: "map_of registry name = Some fixture" by (simp add: getFixture_Own)
      obtain outcome vals1 w1 where op: "setup_op fixture vals w = (outcome, vals1, w1)"
        by (cases "setup_op fixture vals w")
      with kept reg have same: "vals1 = vals"
        unfolding record_kept_def by (metis fst_conv snd_conv)
      show ?thesis
      proof (cases outcome)
        case (Inl e)
        with Inr Own op Cons.prems show ?thesis by auto
      next
        case r: (Inr result)
        let ?st1 = "st\<lparr>cleanups := cleanups st @ [cleanup result]\<rparr>"
        let ?vals1 = "vals(name \<mapsto> fvalue result)"
        from Cons.prems(3) have "assign name (fvalue result) vals1 = ?vals1"
          using same by (auto simp: assign_def)
        then obtain t1 v1 s1 wo e1 where
          rec: "setup_loop registry rest ?vals1 ?st1 w1 = (t1, v1, s1, wo, e1)"
          and evs: "evs = SetupCalled name vals (Inr result) # e1"
          using Inr Own op r Cons.prems(1) by (auto split: prod.splits)
        from Cons.prems(2) have dist: "distinct rest" and fresh: "name \<notin> set rest" by simp_all
        from Cons.prems(3) have noproto: "''__proto__'' \<notin> set rest" by simp
        note IH = Cons.IH[OF rec dist noproto, rule_format]
        show ?thesis
        proof (intro allI impI)
          fix i v out
          assume i: "i < length evs" and ev: "evs ! i = SetupCalled ((name # rest) ! i) v out"
          show "(\<forall>k. k \<notin> set (take i (name # rest)) \<longrightarrow> v k = vals k) \<and>
            (\<forall>j < i. \<forall>v' r. evs ! j = SetupCalled ((name # rest) ! j) v' (Inr r) \<longrightarrow>
                       v ((name # rest) ! j) = Some (fvalue r))"
          proof (cases i)
            case 0
            then show ?thesis using evs ev by simp
          next
            case (Suc i')
            with i evs have i': "i' < length e1" by simp
            from ev evs Suc have ev': "e1 ! i' = SetupCalled (rest ! i') v out" by simp
            from IH[OF i' ev'] have
              keep: "\<And>k. k \<notin> set (take i' rest) \<Longrightarrow> v k = ?vals1 k"
              and prev: "\<And>j v' r. j < i' \<Longrightarrow> e1 ! j = SetupCalled (rest ! j) v' (Inr r) \<Longrightarrow>
                       v (rest ! j) = Some (fvalue r)"
              by blast+
            have 2: "v k = vals k" if "k \<notin> set (take i (name # rest))" for k
              using that keep[of k] Suc by simp
            have "name \<notin> set (take i' rest)" using fresh by (auto dest: in_set_takeD)
            from keep[OF this] have vname: "v name = Some (fvalue result)" by simp
            have 3: "v ((name # rest) ! j) = Some (fvalue r)"
              if "j < i" and "evs ! j = SetupCalled ((name # rest) ! j) v' (Inr r)" for j v' r
            proof (cases j)
              case 0
              then show ?thesis using evs vname that(2) by simp
            next
              case (Suc j')
              with that(1) \<open>i = Suc i'\<close> have "j' < i'" by simp
              from prev[OF this] that(2) show ?thesis using evs Suc by simp
            qed
            from 2 3 show ?thesis by blast
          qed
        qed
      qed
    qed
  qed
qed

lemma getFixture_not_Own:
  "getFixture registry name = Inl err \<Longrightarrow> map_of registry name = None"
  "getFixture registry name = Inr Inherited \<Longrightarrow> map_of registry name = None"
  by (auto simp: getFixture_def split: option.splits if_splits)

lemma setup_loop_shape:
  "setup_loop registry names vals st w = (thrown, vals', st', w', evs) \<Longrightarrow>
     \<exists>cs. cleanups st' = cleanups st @ cs \<and> length cs \<le> length names \<and>
       (\<forall>i < length cs. \<exists>v r. evs ! i = SetupCalled (names ! i) v (Inr r) \<and> cs ! i = cleanup r) \<and>
       (case thrown of
          None \<Rightarrow> length cs = length names \<and> length evs = length cs
        | Some (Rejected e) \<Rightarrow>
            length cs < length names \<and> length evs = Suc (length cs) \<and>
            (\<exists>v. evs ! length cs = SetupCalled (names ! length cs) v (Inl e))
        | Some (Error err) \<Rightarrow>
            length cs < length names \<and> length evs = length cs \<and>
            map_of registry (names ! length cs) = None)"
proof (induction names arbitrary: vals st w thrown vals' st' w' evs)
  case Nil
  then show ?case by simp
next
  case (Cons name rest)
  show ?case
  proof (cases "getFixture registry name")
    case (Inl err)
    with getFixture_not_Own(1)[OF Inl] Cons.prems show ?thesis by auto
  next
    case (Inr x)
    show ?thesis
    proof (cases x)
      case Inherited
      with Inr have "map_of registry name = None" by (simp add: getFixture_not_Own(2))
      with Inr Inherited Cons.prems show ?thesis by auto
    next
      case (Own fixture)
      obtain outcome vals1 w1 where op: "setup_op fixture vals w = (outcome, vals1, w1)"
        by (cases "setup_op fixture vals w")
      show ?thesis
      proof (cases outcome)
        case (Inl e)
        with Inr Own op Cons.prems show ?thesis by auto
      next
        case r: (Inr result)
        let ?st1 = "st\<lparr>cleanups := cleanups st @ [cleanup result]\<rparr>"
        obtain t1 v1 s1 wo e1 where
          rec: "setup_loop registry rest (assign name (fvalue result) vals1) ?st1 w1
                  = (t1, v1, s1, wo, e1)"
          by (metis prod_cases5)
        with Inr Own op r Cons.prems have res: "thrown = t1" "st' = s1"
          "evs = SetupCalled name vals (Inr result) # e1" by simp_all
        from Cons.IH[OF rec] obtain cs where
          cs: "cleanups s1 = cleanups ?st1 @ cs" "length cs \<le> length rest"
          and nth: "\<forall>i < length cs. \<exists>v r. e1 ! i = SetupCalled (rest ! i) v (Inr r) \<and> cs ! i = cleanup r"
          and out: "(case t1 of
            None \<Rightarrow> length cs = length rest \<and> length e1 = length cs
          | Some (Rejected e) \<Rightarrow>
              length cs < length rest \<and> length e1 = Suc (length cs) \<and>
              (\<exists>v. e1 ! length cs = SetupCalled (rest ! length cs) v (Inl e))
          | Some (Error err) \<Rightarrow>
              length cs < length rest \<and> length e1 = length cs \<and>
              map_of registry (rest ! length cs) = None)"
          by blast
        let ?cs = "cleanup result # cs"
        have a: "cleanups st' = cleanups st @ ?cs" using cs(1) res(2) by simp
        have b: "length ?cs \<le> length (name # rest)" using cs(2) by simp
        have c: "\<exists>v r. evs ! i = SetupCalled ((name # rest) ! i) v (Inr r) \<and> ?cs ! i = cleanup r"
          if "i < length ?cs" for i
        proof (cases i)
          case 0
          then show ?thesis using res(3) by simp
        next
          case (Suc j)
          with that nth res(3) show ?thesis by simp
        qed
        have d: "(case thrown of
            None \<Rightarrow> length ?cs = length (name # rest) \<and> length evs = length ?cs
          | Some (Rejected e) \<Rightarrow>
              length ?cs < length (name # rest) \<and> length evs = Suc (length ?cs) \<and>
              (\<exists>v. evs ! length ?cs = SetupCalled ((name # rest) ! length ?cs) v (Inl e))
          | Some (Error err) \<Rightarrow>
              length ?cs < length (name # rest) \<and> length evs = length ?cs \<and>
              map_of registry ((name # rest) ! length ?cs) = None)"
          using out res(1,3) by (auto split: option.splits thrown.splits)
        from a b c d show ?thesis by blast
      qed
    qed
  qed
qed

text \<open>
  The cleanup loop is left by an error exactly when a cleanup it called threw.
\<close>

lemma run_cleanups_escaped:
  fixes evs :: "('v, 'w, 'e) event list"
  shows "run_cleanups cs w = (escaped, w', evs) \<Longrightarrow>
     (escaped = None \<longleftrightarrow> (\<forall>ev \<in> set evs. \<not> threw ev))"
proof (induction cs arbitrary: w escaped w' evs)
  case Nil
  then show ?case by simp
next
  case (Cons c cs)
  obtain out w1 where c: "c w = (out, w1)" by (cases "c w")
  show ?case
  proof (cases out)
    case (Throws e)
    with c Cons.prems show ?thesis by (auto simp: threw_def)
  next
    case Resolves
    obtain esc w2 and evs2 :: "('v, 'w, 'e) event list" where
      r: "run_cleanups cs w1 = (esc, w2, evs2)"
      by (cases "run_cleanups cs w1 :: 'e option \<times> 'w \<times> ('v, 'w, 'e) event list")
    with Cons.prems c Resolves have "evs = CleanupCalled c Resolves # evs2" "escaped = esc"
      by simp_all
    with Cons.IH[OF r] show ?thesis by (simp add: threw_def)
  next
    case (Rejects e)
    obtain esc w2 and evs2 :: "('v, 'w, 'e) event list" where
      r: "run_cleanups cs w1 = (esc, w2, evs2)"
      by (cases "run_cleanups cs w1 :: 'e option \<times> 'w \<times> ('v, 'w, 'e) event list")
    with Cons.prems c Rejects have "evs = CleanupCalled c (Rejects e) # evs2" "escaped = esc"
      by simp_all
    with Cons.IH[OF r] show ?thesis by (simp add: threw_def)
  qed
qed

section \<open>The ways a pass can end\<close>

text \<open>
  A pass that gets past the sort is the setup loop followed, when the loop raised, by
  the cleanup loop.  It ends well exactly when the setup loop does.
\<close>

lemma fixtures_setup_run:
  fixes registry :: "('v, 'w, 'e) FixtureRegistry"
    and evs :: "('v, 'w, 'e) event list"
  assumes "sorted_order registry requested = Inr sorted_names"
    and "fixtures_setup registry requested st w = (thrown, st', w', evs)"
  obtains t vals stl wl evl evr where
    "setup_loop registry sorted_names Map.empty (st\<lparr>cleanups := []\<rparr>) w = (t, vals, stl, wl, evl)"
    and "evs = evl @ evr"
    and "\<forall>i < length evr. \<exists>c out. evr ! i = CleanupCalled c out"
    and "setup_names evr = []"
    and "thrown = None \<longleftrightarrow> t = None"
proof -
  obtain t vals stl wl evl where
    loop: "setup_loop registry sorted_names Map.empty (st\<lparr>cleanups := []\<rparr>) w = (t, vals, stl, wl, evl)"
    by (metis prod_cases5)
  show thesis
  proof (cases t)
    case None
    with loop assms have "thrown = None" "evs = evl"
      by (simp_all add: fixtures_setup_order)
    then have a: "thrown = None \<longleftrightarrow> t = None" and b: "evs = evl @ []" using None by simp_all
    have c: "\<forall>i < length ([] :: ('v, 'w, 'e) event list).
        \<exists>c out. [] ! i = (CleanupCalled c out :: ('v, 'w, 'e) event)"
      by simp
    have d: "setup_names ([] :: ('v, 'w, 'e) event list) = []" by simp
    from that[OF loop b c d a] show thesis .
  next
    case (Some err)
    obtain esc wr and evr :: "('v, 'w, 'e) event list" where
      rb: "run_cleanups (rev (cleanups stl)) wl = (esc, wr, evr)"
      by (cases "run_cleanups (rev (cleanups stl)) wl :: 'e option \<times> 'w \<times> ('v, 'w, 'e) event list")
    have "thrown \<noteq> None \<and> evs = evl @ evr"
    proof (cases esc)
      case None
      with rb loop \<open>t = Some err\<close> assms show ?thesis by (auto simp: fixtures_setup_order)
    next
      case (Some e)
      with rb loop \<open>t = Some err\<close> assms show ?thesis by (auto simp: fixtures_setup_order)
    qed
    then have a: "thrown = None \<longleftrightarrow> t = None" and b: "evs = evl @ evr" using Some by simp_all
    from run_cleanups_events[OF rb]
    have c: "\<forall>i < length evr. \<exists>c out. evr ! i = CleanupCalled c out" by blast
    note d = run_cleanups_setup_names[OF rb]
    from that[OF loop b c d a] show thesis .
  qed
qed

lemma count_list_distinct:
  "distinct xs \<Longrightarrow> count_list xs x = (if x \<in> set xs then 1 else 0)"
  by (induction xs) auto

text \<open>
  What every pass that gets past the sort looks like, however it ends: the setups invoked
  are those of an initial segment of the sorted order, all of it when the pass ends well,
  and each is invoked after the setups of its dependencies have resolved.  When the
  setup operations leave the record as it is and no fixture is named \<^verbatim>\<open>__proto__\<close>, each
  is given the values that the setups of its dependencies produced.
\<close>

lemma setup_pass:
  fixes registry :: "('v, 'w, 'e) FixtureRegistry"
    and evs :: "('v, 'w, 'e) event list"
  assumes so: "sorted_order registry requested = Inr sorted_names"
    and run: "fixtures_setup registry requested st w = (thrown, st', w', evs)"
  shows "\<exists>rest. sorted_names = setup_names evs @ rest"
    and "thrown = None \<Longrightarrow> setup_names evs = sorted_names"
    and "i < length evs \<Longrightarrow> evs ! i = SetupCalled n v out \<Longrightarrow> (n, d) \<in> dep_edges registry \<Longrightarrow>
           \<exists>j < i. \<exists>v' r. evs ! j = SetupCalled d v' (Inr r) \<and>
             (record_kept registry \<longrightarrow> ''__proto__'' \<notin> closure registry requested \<longrightarrow>
                v d = Some (fvalue r))"
proof -
  note ord = sorted_order_success[OF so]
  obtain t lvals stl wl evl and evr :: "('v, 'w, 'e) event list" where
    loop: "setup_loop registry sorted_names Map.empty (st\<lparr>cleanups := []\<rparr>) w = (t, lvals, stl, wl, evl)"
    and evs: "evs = evl @ evr" and names_r: "setup_names evr = []"
    and t: "thrown = None \<longleftrightarrow> t = None"
    and cleanup_only: "\<forall>i < length evr. \<exists>c out. evr ! i = CleanupCalled c out"
    using fixtures_setup_run[OF so run] by metis
  note len = setup_loop_length[OF loop]
  note each = setup_loop_events[OF loop, rule_format]
  have "\<forall>i < length evl. \<exists>v out. evl ! i = SetupCalled (sorted_names ! i) v out"
    using each by blast
  from setup_names_loop[OF len this]
  have names_l: "setup_names evl = take (length evl) sorted_names" .
  then have names: "setup_names evs = take (length evl) sorted_names"
    using evs names_r by (simp add: setup_names_append)
  show "\<exists>rest. sorted_names = setup_names evs @ rest"
    using names by (metis append_take_drop_id)
  show "setup_names evs = sorted_names" if "thrown = None"
  proof -
    from that t loop have "length evl = length sorted_names" by (simp add: setup_loop_all)
    with names show ?thesis by simp
  qed
  show "\<exists>j < i. \<exists>v' r. evs ! j = SetupCalled d v' (Inr r) \<and>
          (record_kept registry \<longrightarrow> ''__proto__'' \<notin> closure registry requested \<longrightarrow>
             v d = Some (fvalue r))"
    if i: "i < length evs" and ev: "evs ! i = SetupCalled n v out"
      and edge: "(n, d) \<in> dep_edges registry"
  proof -
    have il: "i < length evl"
    proof (rule ccontr)
      assume "\<not> i < length evl"
      with i evs cleanup_only have "\<exists>c out. evs ! i = CleanupCalled c out"
        by (simp add: nth_append)
      with ev show False by auto
    qed
    with ev evs have evl_i: "evl ! i = SetupCalled n v out" by (simp add: nth_append)
    from each[OF il] evl_i have n: "n = sorted_names ! i"
      and prev: "\<And>j. j < i \<Longrightarrow> \<exists>v' r. evl ! j = SetupCalled (sorted_names ! j) v' (Inr r)"
      by auto
    from il len have "i < length sorted_names" by simp
    with ord(3) edge n have "d \<in> set (take i sorted_names)" by (simp add: deps_before_def)
    then obtain j where j: "j < length (take i sorted_names)" "take i sorted_names ! j = d"
      by (auto simp: in_set_conv_nth)
    then have ji: "j < i" and dj: "sorted_names ! j = d" by simp_all
    from prev[OF ji] dj obtain v' r where evl_j: "evl ! j = SetupCalled d v' (Inr r)" by auto
    from ji il have same: "evs ! j = evl ! j" using evs by (simp add: nth_append)
    have "v d = Some (fvalue r)"
      if kept: "record_kept registry" and noproto: "''__proto__'' \<notin> closure registry requested"
    proof -
      from noproto ord(2) have "''__proto__'' \<notin> set sorted_names" by simp
      from setup_loop_records[OF kept loop ord(1) this, rule_format, OF il] evl_i n
      have "\<And>j v' r. j < i \<Longrightarrow> evl ! j = SetupCalled (sorted_names ! j) v' (Inr r) \<Longrightarrow>
                v (sorted_names ! j) = Some (fvalue r)"
        by blast
      from this[OF ji] evl_j dj show ?thesis by simp
    qed
    with evl_j same ji show ?thesis by auto
  qed
qed

section \<open>The laws of teardown, rollback and the accessor\<close>

text \<open>
  \<^verbatim>\<open>teardown\<close> calls the cleanups of the list from the last one back, up to the first
  that throws.  When none throws it calls them all, raises nothing and leaves the state
  cleared, whether or not a cleanup rejected.
\<close>

lemma teardown_law:
  fixes evs :: "('v, 'w, 'e) event list"
  assumes "fixtures_teardown st w = (thrown, st', w', evs)"
  shows "length evs \<le> length (cleanups st)"
    and "i < length evs \<Longrightarrow>
           \<exists>out. evs ! i = CleanupCalled (cleanups st ! (length (cleanups st) - 1 - i)) out"
    and "\<forall>ev \<in> set evs. \<not> threw ev \<Longrightarrow>
           thrown = None \<and> deps st' = None \<and> cleanups st' = [] \<and>
           length evs = length (cleanups st)"
proof -
  obtain esc wr and evr :: "('v, 'w, 'e) event list" where
    run: "run_cleanups (rev (cleanups st)) w = (esc, wr, evr)"
    by (cases "run_cleanups (rev (cleanups st)) w :: 'e option \<times> 'w \<times> ('v, 'w, 'e) event list")
  with assms have evs: "evs = evr"
    by (cases esc) (simp_all add: fixtures_teardown_def)
  from run_cleanups_events[OF run] evs have len: "length evs \<le> length (cleanups st)"
    and nth: "\<forall>i < length evs. \<exists>out. evs ! i = CleanupCalled (rev (cleanups st) ! i) out"
    and all: "esc = None \<longrightarrow> length evs = length (cleanups st)"
    by simp_all
  show "length evs \<le> length (cleanups st)" by (rule len)
  show "\<exists>out. evs ! i = CleanupCalled (cleanups st ! (length (cleanups st) - 1 - i)) out"
    if "i < length evs"
  proof -
    from that len have "i < length (cleanups st)" by simp
    then have "rev (cleanups st) ! i = cleanups st ! (length (cleanups st) - 1 - i)"
      by (simp add: rev_nth)
    with nth that show ?thesis by auto
  qed
  show "thrown = None \<and> deps st' = None \<and> cleanups st' = [] \<and>
        length evs = length (cleanups st)"
    if "\<forall>ev \<in> set evs. \<not> threw ev"
  proof -
    from run_cleanups_escaped[OF run] that evs have "esc = None" by simp
    with run assms all show ?thesis by (auto simp: fixtures_teardown_def)
  qed
qed

text \<open>
  After a \<^verbatim>\<open>teardown\<close> in which no cleanup threw, another one calls nothing and leaves
  the state as it is.
\<close>

lemma teardown_again_law:
  fixes evs :: "('v, 'w, 'e) event list"
  assumes "fixtures_teardown st w = (thrown, st', w', evs)"
    and "\<forall>ev \<in> set evs. \<not> threw ev"
  shows "fixtures_teardown st' w2 = (None, st', w2, [])"
proof -
  from teardown_law(3)[OF assms] have "deps st' = None" "cleanups st' = []" by simp_all
  then show ?thesis by (simp add: fixtures_teardown_def)
qed

text \<open>
  The rollback of \<^verbatim>\<open>setup\<close>, positions counted from 0.  When the invocation at position
  \<open>k\<close> of a pass is a setup operation that raises \<open>e\<close> and no cleanup called in the pass
  throws, it is the setup of the fixture at position \<open>k\<close> of the sorted order, the \<open>k\<close>
  invocations before it are the setups of the fixtures before it, all resolved, and the
  \<open>k\<close> invocations after it are the cleanups these returned, last set up first, each
  once, whether or not they reject.  The state is cleared and the caller gets \<open>e\<close>.
\<close>

lemma rollback_law:
  fixes registry :: "('v, 'w, 'e) FixtureRegistry"
    and evs :: "('v, 'w, 'e) event list"
  assumes so: "sorted_order registry requested = Inr sorted_names"
    and run: "fixtures_setup registry requested st w = (thrown, st', w', evs)"
    and pos: "k < length evs"
    and raised: "evs ! k = SetupCalled name vals (Inl e)"
    and quiet: "\<forall>ev \<in> set evs. \<not> threw ev"
  shows "thrown = Some (Rejected e) \<and> deps st' = None \<and> cleanups st' = [] \<and>
         k < length sorted_names \<and> name = sorted_names ! k \<and> length evs = 2 * k + 1 \<and>
         (\<forall>i < k. \<exists>v r out.
            evs ! i = SetupCalled (sorted_names ! i) v (Inr r) \<and>
            evs ! (2 * k - i) = CleanupCalled (cleanup r) out)"
proof -
  obtain t lvals stl wl evl where
    loop: "setup_loop registry sorted_names Map.empty (st\<lparr>cleanups := []\<rparr>) w
             = (t, lvals, stl, wl, evl)"
    by (metis prod_cases5)
  from setup_loop_shape[OF loop] obtain cs where
    cs: "cleanups stl = cs" "length cs \<le> length sorted_names"
    and nth: "\<forall>i < length cs. \<exists>v r. evl ! i = SetupCalled (sorted_names ! i) v (Inr r) \<and> cs ! i = cleanup r"
    and out: "(case t of
          None \<Rightarrow> length cs = length sorted_names \<and> length evl = length cs
        | Some (Rejected e) \<Rightarrow>
            length cs < length sorted_names \<and> length evl = Suc (length cs) \<and>
            (\<exists>v. evl ! length cs = SetupCalled (sorted_names ! length cs) v (Inl e))
        | Some (Error err) \<Rightarrow>
            length cs < length sorted_names \<and> length evl = length cs \<and>
            map_of registry (sorted_names ! length cs) = None)"
    by auto
  show ?thesis
  proof (cases t)
    case None
    with loop so run have "evs = evl" by (simp add: fixtures_setup_order)
    with out None pos nth have "\<exists>v r. evs ! k = SetupCalled (sorted_names ! k) v (Inr r)" by auto
    with raised show ?thesis by auto
  next
    case (Some err)
    obtain esc wr and evr :: "('v, 'w, 'e) event list" where
      rb: "run_cleanups (rev (cleanups stl)) wl = (esc, wr, evr)"
      by (cases "run_cleanups (rev (cleanups stl)) wl :: 'e option \<times> 'w \<times> ('v, 'w, 'e) event list")
    have evs: "evs = evl @ evr"
      using rb loop Some so run by (cases esc) (auto simp: fixtures_setup_order)
    with quiet have "\<forall>ev \<in> set evr. \<not> threw ev" by simp
    with run_cleanups_escaped[OF rb] have esc: "esc = None" by simp
    with rb loop Some so run have res: "thrown = Some err" "st' = stl\<lparr>cleanups := [], deps := None\<rparr>"
      by (auto simp: fixtures_setup_order)
    from run_cleanups_events[OF rb] esc cs(1)
    have lenr: "length evr = length cs"
      and nthr: "\<forall>i < length cs. \<exists>out. evr ! i = CleanupCalled (rev cs ! i) out" by simp_all
    obtain e' where err: "err = Rejected e'"
    proof (cases err)
      case (Error x)
      with out Some have "length cs < length sorted_names"
        "map_of registry (sorted_names ! length cs) = None" by simp_all
      with sorted_order_registered[OF so, of "sorted_names ! length cs"]
      show ?thesis by simp
    next
      case (Rejected x)
      then show ?thesis by (rule that)
    qed
    with out Some have lt: "length cs < length sorted_names" and lenl: "length evl = Suc (length cs)"
      and last: "\<exists>v. evl ! length cs = SetupCalled (sorted_names ! length cs) v (Inl e')"
      by simp_all
    have k: "k = length cs"
    proof (rule ccontr)
      assume neq: "k \<noteq> length cs"
      show False
      proof (cases "k < length cs")
        case True
        with nth obtain v r where "evl ! k = SetupCalled (sorted_names ! k) v (Inr r)" by blast
        with True lenl have "evs ! k = SetupCalled (sorted_names ! k) v (Inr r)"
          by (simp add: evs nth_append)
        with raised show False by simp
      next
        case False
        with neq have gt: "length evl \<le> k" using lenl by simp
        with pos lenr lenl have "k - length evl < length cs"
          by (simp add: evs)
        with nthr obtain out where "evr ! (k - length evl) = CleanupCalled (rev cs ! (k - length evl)) out"
          by blast
        with gt have "evs ! k = CleanupCalled (rev cs ! (k - length evl)) out"
          by (simp add: evs nth_append)
        with raised show False by simp
      qed
    qed
    from last k lenl have "\<exists>v. evs ! k = SetupCalled (sorted_names ! k) v (Inl e')"
      by (simp add: evs nth_append)
    with raised have same: "name = sorted_names ! k" "e = e'" by auto
    have each: "\<exists>v r out. evs ! i = SetupCalled (sorted_names ! i) v (Inr r) \<and>
              evs ! (2 * k - i) = CleanupCalled (cleanup r) out" if "i < k" for i
    proof -
      from that k nth obtain v r where
        ev: "evl ! i = SetupCalled (sorted_names ! i) v (Inr r)" and c: "cs ! i = cleanup r"
        by blast
      from that k lenl have "evs ! i = evl ! i" by (simp add: evs nth_append)
      moreover
      from that have idx: "2 * k - i - Suc k = k - 1 - i" "\<not> 2 * k - i < Suc k" "k - 1 - i < k"
        by arith+
      from lenl k idx(1,2) have "evs ! (2 * k - i) = evr ! (k - 1 - i)"
        by (simp add: evs nth_append)
      moreover from idx(3) k nthr obtain out where
        "evr ! (k - 1 - i) = CleanupCalled (rev cs ! (k - 1 - i)) out"
        by blast
      moreover from that k idx(3) have "rev cs ! (k - 1 - i) = cs ! i"
        by (simp add: rev_nth)
      ultimately show ?thesis using ev c by simp
    qed
    from each same err res lt k lenl lenr show ?thesis
      by (simp add: evs)
  qed
qed

text \<open>
  \<^verbatim>\<open>get\<close> raises the not-initialized error exactly when \<^verbatim>\<open>state.deps\<close> is \<^verbatim>\<open>null\<close>, and
  otherwise returns a record whose keys are the requested names.
\<close>

lemma get_law:
  "fixtures_get requested st = Inl NotInitialized \<longleftrightarrow> deps st = None"
  "deps st = Some d \<Longrightarrow>
     \<exists>view. fixtures_get requested st = Inr view \<and> dom view = set requested \<and>
            (\<forall>n \<in> set requested. view n = Some (d n))"
proof -
  show "fixtures_get requested st = Inl NotInitialized \<longleftrightarrow> deps st = None"
    by (simp add: fixtures_get_def split: option.splits)
  have "map_of (rev (map (\<lambda>name. (name, d name)) requested)) n =
          (if n \<in> set requested then Some (d n) else None)" for n
    by (induction requested) (auto simp: map_of_append map_add_def split: option.splits)
  then show "\<exists>view. fixtures_get requested st = Inr view \<and> dom view = set requested \<and>
            (\<forall>n \<in> set requested. view n = Some (d n))" if "deps st = Some d"
    using that by (auto simp: fixtures_get_def fromEntries_def dom_def)
qed

section \<open>The registry and the record as objects\<close>

text \<open>
  Three runs that show what the lookup through the prototype, the assignment under
  \<^verbatim>\<open>__proto__\<close> and a setup operation that writes the record do.  A requested name that
  the registry only inherits passes \<^verbatim>\<open>getFixture\<close>, and building the graph ends in the
  \<^verbatim>\<open>TypeError\<close>, not in the missing-fixture error.
\<close>

lemma inherited_name_requested:
  "fixtures_setup shared_registry [''toString''] createFixtures [] =
     (Some (Error NotIterable), createFixtures, [], [])"
  by (simp add: shared_registry_def eval_defs)

text \<open>
  The value of a fixture with the own key \<^verbatim>\<open>__proto__\<close> is not stored: its dependant
  \<open>x\<close> is given the empty record, and the record that \<^verbatim>\<open>get()\<close> reads has no entry for it.
\<close>

lemma proto_value_not_stored:
  "fixtures_setup proto_registry [''x''] createFixtures [] =
     (None,
      \<lparr>deps = Some [''x'' \<mapsto> ''x''],
       cleanups = [logged_cleanup ''__proto__'', logged_cleanup ''x'']\<rparr>,
      [''setup __proto__'', ''setup x''],
      [SetupCalled ''__proto__'' Map.empty
         (Inr \<lparr>fvalue = ''__proto__'', cleanup = logged_cleanup ''__proto__''\<rparr>),
       SetupCalled ''x'' Map.empty
         (Inr \<lparr>fvalue = ''x'', cleanup = logged_cleanup ''x''\<rparr>)])"
  by (simp add: proto_registry_def eval_defs resolving_setup_def logged_cleanup_def)

text \<open>
  What a setup operation writes into the record is what the later ones are given and
  what \<^verbatim>\<open>state.deps\<close> holds: \<open>c\<close> declares \<open>a\<close> and is given the value that \<open>b\<close> wrote
  over it.
\<close>

lemma record_overwritten:
  "fixtures_setup overwriting_registry [''c''] createFixtures [] =
     (None,
      \<lparr>deps = Some [''a'' \<mapsto> ''overwritten'', ''b'' \<mapsto> ''b'', ''c'' \<mapsto> ''c''],
       cleanups = [logged_cleanup ''a'', logged_cleanup ''b'', logged_cleanup ''c'']\<rparr>,
      [''setup a'', ''setup b'', ''setup c''],
      [SetupCalled ''a'' Map.empty
         (Inr \<lparr>fvalue = ''a'', cleanup = logged_cleanup ''a''\<rparr>),
       SetupCalled ''b'' [''a'' \<mapsto> ''a'']
         (Inr \<lparr>fvalue = ''b'', cleanup = logged_cleanup ''b''\<rparr>),
       SetupCalled ''c'' [''a'' \<mapsto> ''overwritten'', ''b'' \<mapsto> ''b'']
         (Inr \<lparr>fvalue = ''c'', cleanup = logged_cleanup ''c''\<rparr>)])"
  by (simp add: overwriting_registry_def eval_defs resolving_setup_def overwriting_setup_def
        logged_cleanup_def)

section \<open>The claims\<close>

text \<open>
  C1.  The claim: when a cleanup raises during an explicit \<^verbatim>\<open>teardown()\<close>, every remaining
  cleanup is still attempted and, after all cleanups have run, \<^verbatim>\<open>teardown()\<close> re-raises the
  first error to the caller.  The code goes on to the next cleanup after one that
  rejects, but raises nothing.  The theorem runs the test
  \<^verbatim>\<open>should throw if cleanup fails\<close>: after a successful setup of \<open>a\<close>, \<open>b\<close>, \<open>c\<close>,
  teardown calls the cleanups of \<open>c\<close>, \<open>b\<close> and \<open>a\<close>, the one of \<open>b\<close> rejects with
  \<open>cleanup failed\<close>, and teardown returns without an error.
\<close>

theorem teardown_swallows_cleanup_error:
  "fixtures_setup cleanup_fails_registry [''c''] createFixtures [] =
     (None, cleanup_fails_live, [''setup a'', ''setup b'', ''setup c''],
      [SetupCalled ''a'' Map.empty
         (Inr \<lparr>fvalue = ''a'', cleanup = logged_cleanup ''a''\<rparr>),
       SetupCalled ''b'' [''a'' \<mapsto> ''a'']
         (Inr \<lparr>fvalue = ''b'', cleanup = failing_cleanup ''b'' ''cleanup failed''\<rparr>),
       SetupCalled ''c'' [''a'' \<mapsto> ''a'', ''b'' \<mapsto> ''b'']
         (Inr \<lparr>fvalue = ''c'', cleanup = logged_cleanup ''c''\<rparr>)]) \<and>
   fixtures_teardown cleanup_fails_live [''setup a'', ''setup b'', ''setup c''] =
     (None, createFixtures,
      [''setup a'', ''setup b'', ''setup c'', ''cleanup c'', ''cleanup b'', ''cleanup a''],
      [CleanupCalled (logged_cleanup ''c'') Resolves,
       CleanupCalled (failing_cleanup ''b'' ''cleanup failed'') (Rejects ''cleanup failed''),
       CleanupCalled (logged_cleanup ''a'') Resolves])"
  by (simp add: cleanup_fails_registry_def cleanup_fails_live_def eval_defs
          resolving_setup_def logged_cleanup_def failing_cleanup_def)

text \<open>
  C2.  The claim: when the setup operation of the \<open>k\<close>-th fixture raises, \<^verbatim>\<open>setup()\<close>
  invokes the cleanups of the fixtures before it, each once and last first, suppresses
  the errors they raise, clears the state and raises the setup error.  The code drops the
  rejection of a cleanup's promise, but an error that a cleanup throws when it is called
  leaves the rollback.  The theorem runs the chain \<open>a\<close>, \<open>b\<close>, \<open>c\<close> where the setup of
  \<open>c\<close> rejects with \<open>setup failed\<close> and the cleanup of \<open>b\<close> throws \<open>cleanup threw\<close>: the
  rollback calls the cleanup of \<open>b\<close> and ends there.  The cleanup of \<open>a\<close> is not called,
  the cleanup list still holds both cleanups, and \<^verbatim>\<open>setup()\<close> raises \<open>cleanup threw\<close>.
  When no cleanup throws, the code does what the claim says: lemma \<open>rollback_law\<close>.
\<close>

theorem rollback_stops_at_throwing_cleanup:
  "fixtures_setup rollback_throws_registry [''c''] createFixtures [] =
     (Some (Rejected ''cleanup threw''),
      \<lparr>deps = None,
       cleanups = [logged_cleanup ''a'', throwing_cleanup ''b'' ''cleanup threw'']\<rparr>,
      [''setup a'', ''setup b'', ''setup c'', ''cleanup b''],
      [SetupCalled ''a'' Map.empty
         (Inr \<lparr>fvalue = ''a'', cleanup = logged_cleanup ''a''\<rparr>),
       SetupCalled ''b'' [''a'' \<mapsto> ''a'']
         (Inr \<lparr>fvalue = ''b'', cleanup = throwing_cleanup ''b'' ''cleanup threw''\<rparr>),
       SetupCalled ''c'' [''a'' \<mapsto> ''a'', ''b'' \<mapsto> ''b''] (Inl ''setup failed''),
       CleanupCalled (throwing_cleanup ''b'' ''cleanup threw'') (Throws ''cleanup threw'')])"
  by (simp add: rollback_throws_registry_def eval_defs
          resolving_setup_def rejecting_setup_def logged_cleanup_def throwing_cleanup_def)




text \<open>
  C4.  The claim: after a successful \<^verbatim>\<open>setup()\<close> that produced the cleanups \<open>[c1, ..., cn]\<close>,
  \<^verbatim>\<open>teardown()\<close> invokes them in the order \<open>[cn, ..., c1]\<close> and then clears the state,
  whether or not a cleanup raised.  The code does so when cleanups resolve or reject, but
  an error that a cleanup throws when it is called leaves \<^verbatim>\<open>teardown\<close>.  The theorem
  runs the chain \<open>a\<close>, \<open>b\<close>, \<open>c\<close> where the cleanup of \<open>b\<close> throws \<open>cleanup threw\<close>: after
  the successful setup, teardown calls the cleanup of \<open>c\<close>, then that of \<open>b\<close>, and ends
  there with \<open>cleanup threw\<close>.  The cleanup of \<open>a\<close> is not called, and the state still
  holds the resolved values and the three cleanups, in reversed order.  When no cleanup
  throws, the code does what the claim says: lemma \<open>teardown_law\<close>.
\<close>

theorem teardown_stops_at_throwing_cleanup:
  "fixtures_setup cleanup_throws_registry [''c''] createFixtures [] =
     (None, cleanup_throws_live, [''setup a'', ''setup b'', ''setup c''],
      [SetupCalled ''a'' Map.empty
         (Inr \<lparr>fvalue = ''a'', cleanup = logged_cleanup ''a''\<rparr>),
       SetupCalled ''b'' [''a'' \<mapsto> ''a'']
         (Inr \<lparr>fvalue = ''b'', cleanup = throwing_cleanup ''b'' ''cleanup threw''\<rparr>),
       SetupCalled ''c'' [''a'' \<mapsto> ''a'', ''b'' \<mapsto> ''b'']
         (Inr \<lparr>fvalue = ''c'', cleanup = logged_cleanup ''c''\<rparr>)]) \<and>
   fixtures_teardown cleanup_throws_live [''setup a'', ''setup b'', ''setup c''] =
     (Some (Rejected ''cleanup threw''),
      \<lparr>deps = Some [''a'' \<mapsto> ''a'', ''b'' \<mapsto> ''b'', ''c'' \<mapsto> ''c''],
       cleanups = [logged_cleanup ''c'', throwing_cleanup ''b'' ''cleanup threw'',
                   logged_cleanup ''a'']\<rparr>,
      [''setup a'', ''setup b'', ''setup c'', ''cleanup c'', ''cleanup b''],
      [CleanupCalled (logged_cleanup ''c'') Resolves,
       CleanupCalled (throwing_cleanup ''b'' ''cleanup threw'') (Throws ''cleanup threw'')])"
  by (simp add: cleanup_throws_registry_def cleanup_throws_live_def
          eval_defs resolving_setup_def logged_cleanup_def throwing_cleanup_def)

text \<open>
  C5, as amended.  A fixture that two fixtures of the closure depend on has its setup
  operation invoked at most once in a pass, and exactly once in a pass that succeeds.
\<close>

theorem shared_dependency_once:
  fixes registry :: "('v, 'w, 'e) FixtureRegistry"
    and evs :: "('v, 'w, 'e) event list"
  assumes "shared_dependency registry requested n"
    and "fixtures_setup registry requested st w = (thrown, st', w', evs)"
  shows "count_list (setup_names evs) n \<le> 1 \<and>
         (thrown = None \<longrightarrow> count_list (setup_names evs) n = 1)"
proof (cases "sorted_order registry requested")
  case (Inl err)
  with assms(2) show ?thesis by (auto simp: fixtures_setup_order)
next
  case (Inr sorted_names)
  note ord = sorted_order_success[OF Inr]
  note pass = setup_pass[OF Inr assms(2)]
  from pass(1) ord(1) have "distinct (setup_names evs)" by auto
  then have most: "count_list (setup_names evs) n \<le> 1" by (simp add: count_list_distinct)
  have "count_list (setup_names evs) n = 1" if "thrown = None"
  proof -
    from assms(1) obtain a where "a \<in> closure registry requested" "(a, n) \<in> dep_edges registry"
      unfolding shared_dependency_def by blast
    then have "n \<in> closure registry requested"
      using closure_closed[of a registry requested n] by blast
    with ord(2) pass(2)[OF that] ord(1) show ?thesis by (simp add: count_list_distinct)
  qed
  with most show ?thesis by simp
qed

theorem shared_dependency_once_witness:
  "shared_dependency shared_registry [''foo'', ''bar''] ''shared'' \<and>
   fixtures_setup shared_registry [''foo'', ''bar''] createFixtures [] =
     (None,
      \<lparr>deps = Some [''shared'' \<mapsto> ''shared'', ''foo'' \<mapsto> ''foo'', ''bar'' \<mapsto> ''bar''],
       cleanups = [logged_cleanup ''shared'', logged_cleanup ''foo'', logged_cleanup ''bar'']\<rparr>,
      [''setup shared'', ''setup foo'', ''setup bar''],
      [SetupCalled ''shared'' Map.empty
         (Inr \<lparr>fvalue = ''shared'', cleanup = logged_cleanup ''shared''\<rparr>),
       SetupCalled ''foo'' [''shared'' \<mapsto> ''shared'']
         (Inr \<lparr>fvalue = ''foo'', cleanup = logged_cleanup ''foo''\<rparr>),
       SetupCalled ''bar'' [''shared'' \<mapsto> ''shared'', ''foo'' \<mapsto> ''foo'']
         (Inr \<lparr>fvalue = ''bar'', cleanup = logged_cleanup ''bar''\<rparr>)]) \<and>
   count_list (setup_names
     ([SetupCalled ''shared'' Map.empty
         (Inr \<lparr>fvalue = ''shared'', cleanup = logged_cleanup ''shared''\<rparr>),
       SetupCalled ''foo'' [''shared'' \<mapsto> ''shared'']
         (Inr \<lparr>fvalue = ''foo'', cleanup = logged_cleanup ''foo''\<rparr>),
       SetupCalled ''bar'' [''shared'' \<mapsto> ''shared'', ''foo'' \<mapsto> ''foo'']
         (Inr \<lparr>fvalue = ''bar'', cleanup = logged_cleanup ''bar''\<rparr>)] :: (string, call_log, string) event list))
     ''shared'' = 1"
proof -
  have foo: "''foo'' \<in> closure shared_registry [''foo'', ''bar'']"
    and bar: "''bar'' \<in> closure shared_registry [''foo'', ''bar'']"
    by (rule closure_requested, simp)+
  have "(''foo'', ''shared'') \<in> dep_edges shared_registry"
    and "(''bar'', ''shared'') \<in> dep_edges shared_registry"
    by (simp_all add: dep_edges_def shared_registry_def defineFixture_def)
  with foo bar have shared: "shared_dependency shared_registry [''foo'', ''bar''] ''shared''"
    unfolding shared_dependency_def by (intro exI[of _ "''foo''"] exI[of _ "''bar''"]) simp
  have run: "fixtures_setup shared_registry [''foo'', ''bar''] createFixtures [] =
     (None,
      \<lparr>deps = Some [''shared'' \<mapsto> ''shared'', ''foo'' \<mapsto> ''foo'', ''bar'' \<mapsto> ''bar''],
       cleanups = [logged_cleanup ''shared'', logged_cleanup ''foo'', logged_cleanup ''bar'']\<rparr>,
      [''setup shared'', ''setup foo'', ''setup bar''],
      [SetupCalled ''shared'' Map.empty
         (Inr \<lparr>fvalue = ''shared'', cleanup = logged_cleanup ''shared''\<rparr>),
       SetupCalled ''foo'' [''shared'' \<mapsto> ''shared'']
         (Inr \<lparr>fvalue = ''foo'', cleanup = logged_cleanup ''foo''\<rparr>),
       SetupCalled ''bar'' [''shared'' \<mapsto> ''shared'', ''foo'' \<mapsto> ''foo'']
         (Inr \<lparr>fvalue = ''bar'', cleanup = logged_cleanup ''bar''\<rparr>)])"
    by (simp add: shared_registry_def eval_defs resolving_setup_def logged_cleanup_def)
  from shared_dependency_once[OF shared run] shared run show ?thesis by simp
qed

text \<open>
  C5 as stated fails in a pass that does not succeed.  Below, \<open>shared\<close> is a dependency
  of both \<open>foo\<close> and \<open>bar\<close>, the setup of \<open>base\<close> raises, and the setup of \<open>shared\<close> is
  invoked zero times.
\<close>

theorem shared_dependency_counterexample:
  "shared_dependency failing_base_registry [''foo'', ''bar''] ''shared'' \<and>
   fixtures_setup failing_base_registry [''foo'', ''bar''] createFixtures [] =
     (Some (Rejected ''setup failed''), createFixtures, [''setup base''],
      [SetupCalled ''base'' Map.empty (Inl ''setup failed'')]) \<and>
   count_list (setup_names
     ([SetupCalled ''base'' Map.empty (Inl ''setup failed'')] :: (string, call_log, string) event list))
     ''shared'' = 0"
proof -
  have foo: "''foo'' \<in> closure failing_base_registry [''foo'', ''bar'']"
    and bar: "''bar'' \<in> closure failing_base_registry [''foo'', ''bar'']"
    by (rule closure_requested, simp)+
  have "(''foo'', ''shared'') \<in> dep_edges failing_base_registry"
    and "(''bar'', ''shared'') \<in> dep_edges failing_base_registry"
    by (simp_all add: dep_edges_def failing_base_registry_def defineFixture_def)
  with foo bar have "shared_dependency failing_base_registry [''foo'', ''bar''] ''shared''"
    unfolding shared_dependency_def by (intro exI[of _ "''foo''"] exI[of _ "''bar''"]) simp
  moreover have "fixtures_setup failing_base_registry [''foo'', ''bar''] createFixtures [] =
     (Some (Rejected ''setup failed''), createFixtures, [''setup base''],
      [SetupCalled ''base'' Map.empty (Inl ''setup failed'')])"
    by (simp add: failing_base_registry_def eval_defs resolving_setup_def rejecting_setup_def
          logged_cleanup_def)
  ultimately show ?thesis by simp
qed

text \<open>
  C6, as amended.  When no name of the closure is missing from the registry and some
  name of the closure depends on itself, \<^verbatim>\<open>setup()\<close> raises the circular-dependency error
  for a name of the closure that depends on itself, invokes no setup operation and
  leaves the state and the world as they were.
\<close>

theorem cycle_detected:
  assumes "no_missing registry requested"
    and "n \<in> closure registry requested" and "(n, n) \<in> (dep_edges registry)\<^sup>+"
  shows "\<exists>m. fixtures_setup registry requested st w =
               (Some (Error (CircularDependency m)), st, w, []) \<and>
             m \<in> closure registry requested \<and> (m, m) \<in> (dep_edges registry)\<^sup>+"
proof -
  from assms(2,3) have cyclic: "\<not> no_cycles registry requested"
    by (auto simp: no_cycles_def)
  show ?thesis
  proof (cases "sorted_order registry requested")
    case (Inl err)
    from sorted_order_fails[OF Inl] assms(1) obtain m where
      m: "err = CircularDependency m" "m \<in> closure registry requested"
         "(m, m) \<in> (dep_edges registry)\<^sup>+"
      by (auto simp: no_missing_def)
    with Inl have "fixtures_setup registry requested st w =
               (Some (Error (CircularDependency m)), st, w, [])"
      by (simp add: fixtures_setup_order)
    with m show ?thesis by blast
  next
    case (Inr sorted_names)
    from sorted_order_success(5)[OF Inr] cyclic show ?thesis by simp
  qed
qed

theorem cycle_detected_witness:
  "no_missing cyclic_registry [''a''] \<and>
   ''a'' \<in> closure cyclic_registry [''a''] \<and>
   (''a'', ''a'') \<in> (dep_edges cyclic_registry)\<^sup>+ \<and>
   fixtures_setup cyclic_registry [''a''] createFixtures [] =
     (Some (Error (CircularDependency ''a'')), createFixtures, [], [])"
proof -
  have built: "build_graph cyclic_registry [''a''] =
                 Inr ([(''a'', [''b'']), (''b'', [''a''])], [''a'', ''b''])"
    by (simp add: cyclic_registry_def eval_defs)
  have registered: "no_missing cyclic_registry [''a'']"
    unfolding no_missing_def using build_graph_success(4)[OF built] by auto
  have a: "''a'' \<in> closure cyclic_registry [''a'']"
    by (rule closure_requested) simp
  have "(''a'', ''b'') \<in> dep_edges cyclic_registry"
    and "(''b'', ''a'') \<in> dep_edges cyclic_registry"
    by (simp_all add: dep_edges_def cyclic_registry_def defineFixture_def)
  then have cycle: "(''a'', ''a'') \<in> (dep_edges cyclic_registry)\<^sup>+"
    by (rule trancl_into_trancl[OF r_into_trancl])
  have run: "fixtures_setup cyclic_registry [''a''] createFixtures [] =
     (Some (Error (CircularDependency ''a'')), createFixtures, [], [])"
    by (simp add: cyclic_registry_def eval_defs)
  from cycle_detected[OF registered a cycle, of createFixtures "[]"] registered a cycle run
  show ?thesis by simp
qed

text \<open>
  C6 as stated fails when the closure also has a missing name: the graph is built before
  it is sorted, and building it raises first.  Below, \<open>a\<close> and \<open>b\<close> depend on each
  other and \<open>a\<close> also on \<open>zz\<close>, which has no fixture; the error is the missing-fixture
  error for \<open>zz\<close>.
\<close>

theorem cycle_detected_counterexample:
  "''a'' \<in> closure cyclic_missing_registry [''a''] \<and>
   (''a'', ''a'') \<in> (dep_edges cyclic_missing_registry)\<^sup>+ \<and>
   fixtures_setup cyclic_missing_registry [''a''] createFixtures [] =
     (Some (Error (FixtureNotFound ''zz'')), createFixtures, [], [])"
proof -
  have a: "''a'' \<in> closure cyclic_missing_registry [''a'']"
    by (rule closure_requested) simp
  have "(''a'', ''b'') \<in> dep_edges cyclic_missing_registry"
    and "(''b'', ''a'') \<in> dep_edges cyclic_missing_registry"
    by (simp_all add: dep_edges_def cyclic_missing_registry_def defineFixture_def)
  then have cycle: "(''a'', ''a'') \<in> (dep_edges cyclic_missing_registry)\<^sup>+"
    by (rule trancl_into_trancl[OF r_into_trancl])
  have run: "fixtures_setup cyclic_missing_registry [''a''] createFixtures [] =
     (Some (Error (FixtureNotFound ''zz'')), createFixtures, [], [])"
    by (simp add: cyclic_missing_registry_def eval_defs)
  from a cycle run show ?thesis by simp
qed

text \<open>
  C7, as amended.  When a name of the closure of the requested names has no fixture in
  the registry, and no name of the closure without a fixture of its own is the name of a
  member of \<^verbatim>\<open>Object.prototype\<close>, building the graph fails and \<^verbatim>\<open>setup()\<close> raises the
  missing-fixture error for a name of the closure that has no fixture, invokes no setup
  operation and leaves the state and the world as they were.  The name in the error is
  the given one when it is the only one missing.
\<close>

theorem missing_fixture_detected:
  assumes "n \<in> closure registry requested" and "map_of registry n = None"
    and "none_inherited registry requested"
  shows "\<exists>m. build_graph registry requested = Inl (FixtureNotFound m) \<and>
             fixtures_setup registry requested st w =
               (Some (Error (FixtureNotFound m)), st, w, []) \<and>
             m \<in> closure registry requested \<and> map_of registry m = None \<and>
             ((\<forall>k \<in> closure registry requested. map_of registry k = None \<longrightarrow> k = n) \<longrightarrow> m = n)"
proof -
  from assms(1,2) have missing: "\<not> no_missing registry requested"
    by (auto simp: no_missing_def)
  show ?thesis
  proof (cases "sorted_order registry requested")
    case (Inl err)
    from sorted_order_fails[OF Inl] missing obtain m where
      m: "err = build_error m" "m \<in> closure registry requested" "map_of registry m = None"
      by blast
    from m(2,3) assms(3) have "m \<notin> set object_prototype_keys"
      by (simp add: none_inherited_def)
    with m(1) have err: "err = FixtureNotFound m" by (simp add: build_error_def)
    with Inl have "fixtures_setup registry requested st w =
               (Some (Error (FixtureNotFound m)), st, w, [])"
      by (simp add: fixtures_setup_order)
    moreover from Inl err have "build_graph registry requested = Inl (FixtureNotFound m)"
      by (rule sorted_order_missing)
    ultimately show ?thesis using m(2,3) by blast
  next
    case (Inr sorted_names)
    from sorted_order_success(4)[OF Inr] missing show ?thesis by simp
  qed
qed

theorem missing_fixture_detected_witness:
  "''db'' \<in> closure missing_db_registry [''client''] \<and>
   map_of missing_db_registry ''db'' = None \<and>
   none_inherited missing_db_registry [''client''] \<and>
   fixtures_setup missing_db_registry [''client''] createFixtures [] =
     (Some (Error (FixtureNotFound ''db'')), createFixtures, [], [])"
proof -
  have client: "''client'' \<in> closure missing_db_registry [''client'']"
    by (rule closure_requested) simp
  have "(''client'', ''db'') \<in> dep_edges missing_db_registry"
    by (simp add: dep_edges_def missing_db_registry_def defineFixture_def)
  then have db: "''db'' \<in> closure missing_db_registry [''client'']"
    using closure_closed[OF client] by blast
  have none: "map_of missing_db_registry ''db'' = None"
    by (simp add: missing_db_registry_def)
  have "closure missing_db_registry [''client''] \<subseteq> {''client'', ''db''}"
    by (rule closure_subset)
       (auto simp: dep_edges_def missing_db_registry_def defineFixture_def split: if_splits)
  then have own: "none_inherited missing_db_registry [''client'']"
    by (auto simp: none_inherited_def object_prototype_keys_def)
  have run: "fixtures_setup missing_db_registry [''client''] createFixtures [] =
     (Some (Error (FixtureNotFound ''db'')), createFixtures, [], [])"
    by (simp add: missing_db_registry_def eval_defs)
  from missing_fixture_detected[OF db none own, of createFixtures "[]"] db none own run
  show ?thesis by blast
qed

text \<open>
  C7 as stated fails for the second of two missing names: the error names the one that
  is looked up first.  Below, \<open>client\<close> declares \<open>db\<close> and \<open>cache\<close>, neither has a
  fixture, and the error names \<open>db\<close>, not \<open>cache\<close>.
\<close>

theorem missing_fixture_counterexample:
  "''cache'' \<in> closure missing_two_registry [''client''] \<and>
   map_of missing_two_registry ''cache'' = None \<and>
   fixtures_setup missing_two_registry [''client''] createFixtures [] =
     (Some (Error (FixtureNotFound ''db'')), createFixtures, [], []) \<and>
   FixtureNotFound ''db'' \<noteq> FixtureNotFound ''cache''"
proof -
  have client: "''client'' \<in> closure missing_two_registry [''client'']"
    by (rule closure_requested) simp
  have "(''client'', ''cache'') \<in> dep_edges missing_two_registry"
    by (simp add: dep_edges_def missing_two_registry_def defineFixture_def)
  then have cache: "''cache'' \<in> closure missing_two_registry [''client'']"
    using closure_closed[OF client] by blast
  have none: "map_of missing_two_registry ''cache'' = None"
    by (simp add: missing_two_registry_def)
  have run: "fixtures_setup missing_two_registry [''client''] createFixtures [] =
     (Some (Error (FixtureNotFound ''db'')), createFixtures, [], [])"
    by (simp add: missing_two_registry_def eval_defs)
  from cache none run show ?thesis by simp
qed

text \<open>
  C8.  The claim: \<^verbatim>\<open>get()\<close> raises the not-initialized error exactly when the state holds
  no resolved values, which is before a successful \<^verbatim>\<open>setup()\<close>, after a \<^verbatim>\<open>teardown()\<close> or
  after a failed \<^verbatim>\<open>setup()\<close>.  The code raises it exactly when \<^verbatim>\<open>state.deps\<close> is \<^verbatim>\<open>null\<close>, but
  a \<^verbatim>\<open>teardown()\<close> that a throwing cleanup ends does not reach the assignment that resets
  it.  The theorem takes the state that the successful setup of the chain \<open>a\<close>, \<open>b\<close>,
  \<open>c\<close> leaves, where the cleanup of \<open>b\<close> throws: in the state that \<^verbatim>\<open>teardown()\<close> leaves,
  \<^verbatim>\<open>get()\<close> returns the record with the value of \<open>c\<close> and raises nothing.
\<close>

theorem get_after_stopped_teardown:
  "fst (snd (fixtures_setup cleanup_throws_registry [''c''] createFixtures [])) =
     cleanup_throws_live \<and>
   fst (fixtures_teardown cleanup_throws_live [''setup a'', ''setup b'', ''setup c'']) =
     Some (Rejected ''cleanup threw'') \<and>
   fst (snd (fixtures_teardown cleanup_throws_live [''setup a'', ''setup b'', ''setup c''])) =
     cleanup_throws_left \<and>
   fixtures_get [''c''] cleanup_throws_left = Inr [''c'' \<mapsto> Some ''c''] \<and>
   fixtures_get [''c''] cleanup_throws_left \<noteq> Inl NotInitialized"
  by (simp add: cleanup_throws_registry_def cleanup_throws_live_def cleanup_throws_left_def
          eval_defs resolving_setup_def logged_cleanup_def throwing_cleanup_def)

text \<open>
  C9.  The claim: a second or later \<^verbatim>\<open>teardown()\<close> with no \<^verbatim>\<open>setup()\<close> in between invokes
  no cleanup and leaves the state cleared.  The code empties the cleanup list after the
  loop, which a throwing cleanup leaves before.  The theorem takes the state that the
  first \<^verbatim>\<open>teardown()\<close> of the chain \<open>a\<close>, \<open>b\<close>, \<open>c\<close> leaves, where the cleanup of \<open>b\<close>
  throws; the cleanups of \<open>c\<close> and \<open>b\<close> have been called.  The second \<^verbatim>\<open>teardown()\<close>
  reverses the list again, calls the cleanup of \<open>a\<close>, calls the cleanup of \<open>b\<close> a second
  time and ends there; the state still holds the resolved values and the three cleanups.
  After a \<^verbatim>\<open>teardown()\<close> in which no cleanup throws, the code does what the claim says:
  lemma \<open>teardown_again_law\<close>.
\<close>

theorem second_teardown_calls_cleanups:
  "fst (snd (fixtures_setup cleanup_throws_registry [''c''] createFixtures [])) =
     cleanup_throws_live \<and>
   snd (fixtures_teardown cleanup_throws_live [''setup a'', ''setup b'', ''setup c'']) =
     (cleanup_throws_left,
      [''setup a'', ''setup b'', ''setup c'', ''cleanup c'', ''cleanup b''],
      [CleanupCalled (logged_cleanup ''c'') Resolves,
       CleanupCalled (throwing_cleanup ''b'' ''cleanup threw'') (Throws ''cleanup threw'')]) \<and>
   fixtures_teardown cleanup_throws_left
       [''setup a'', ''setup b'', ''setup c'', ''cleanup c'', ''cleanup b''] =
     (Some (Rejected ''cleanup threw''), cleanup_throws_live,
      [''setup a'', ''setup b'', ''setup c'', ''cleanup c'', ''cleanup b'', ''cleanup a'',
       ''cleanup b''],
      [CleanupCalled (logged_cleanup ''a'') Resolves,
       CleanupCalled (throwing_cleanup ''b'' ''cleanup threw'') (Throws ''cleanup threw'')])"
  by (simp add: cleanup_throws_registry_def cleanup_throws_live_def cleanup_throws_left_def
          eval_defs resolving_setup_def logged_cleanup_def throwing_cleanup_def)

text \<open>
  C10.  With an empty list of requested names, \<^verbatim>\<open>setup()\<close> succeeds and invokes no
  setup operation, and the \<^verbatim>\<open>get()\<close> that follows does not raise the not-initialized
  error: it returns the empty record.
\<close>

theorem empty_request:
  "(case fixtures_setup registry [] st w of
      (thrown, st', w', evs) \<Rightarrow>
        thrown = None \<and> evs = [] \<and> deps st' = Some Map.empty \<and>
        fixtures_get [] st' = Inr Map.empty \<and> fixtures_get [] st' \<noteq> Inl NotInitialized)"
  by (simp add: fixtures_setup_def build_graph_def new_Set_def sortFixtures_def
        fixtures_get_def fromEntries_def)

end
